theory Spec2Isabelle
  imports Complex_Main "HOL-Library.Multiset" "HOL-Library.Log_Nat"
begin

section \<open>JavaScript numbers\<close>

text \<open>
  Every number of \<^verbatim>\<open>script.js\<close> is an IEEE-754 double. The scoreboard divides
  two counts and multiplies the quotient by 100, and both operations round. A double is
  modelled by the rational it denotes; \<open>fl\<close> rounds a rational to the nearest double
  (53 significant bits, ties to the even significand). Overflow, subnormals, NaN and the
  sign of zero are left out: the operands below are counts of at most \<open>2 ^ 53\<close>, whose
  quotients and products stay in the normal range.
\<close>

definition pow2 :: "int \<Rightarrow> rat" where
  "pow2 e = (if 0 \<le> e then 2 ^ nat e else 1 / 2 ^ nat (- e))"

definition round_even :: "rat \<Rightarrow> int" where
  "round_even m =
     (let f = \<lfloor>m\<rfloor>; d = m - of_int f
      in if d < 1 / 2 then f else if 1 / 2 < d then f + 1
         else if even f then f else f + 1)"

text \<open>The exponent \<open>e\<close> with \<open>2 ^ e \<le> x < 2 ^ (e + 1)\<close>, for \<open>0 < x\<close>.\<close>

definition ilog2 :: "rat \<Rightarrow> int" where
  "ilog2 x =
     (let (p, q) = quotient_of x; e = bitlen p - bitlen q
      in if pow2 e \<le> x then e else e - 1)"

definition fl :: "rat \<Rightarrow> rat" where
  "fl x =
     (if x = 0 then 0
      else let a = \<bar>x\<bar>; u = pow2 (ilog2 a - 52); r = of_int (round_even (a / u)) * u
           in if x < 0 then - r else r)"

text \<open>\<^verbatim>\<open>a / b\<close> and \<^verbatim>\<open>a * b\<close> on doubles (\<open>b\<close> is not zero where the code divides).\<close>

definition js_div :: "rat \<Rightarrow> rat \<Rightarrow> rat" where
  "js_div a b = fl (a / b)"

definition js_mul :: "rat \<Rightarrow> rat \<Rightarrow> rat" where
  "js_mul a b = fl (a * b)"

text \<open>
  \<^verbatim>\<open>Math.round(x)\<close>: the integer nearest to \<open>x\<close>, the larger one of two equally
  near. It is exact on doubles.
\<close>

definition Math_round :: "rat \<Rightarrow> int" where
  "Math_round x = \<lfloor>x + 1 / 2\<rfloor>"

section \<open>Score records and the ranking of \<^verbatim>\<open>displayScores\<close>\<close>

text \<open>
  The object written by \<^verbatim>\<open>saveScoreToStorage\<close>:
  \<^verbatim>\<open>{ name: name, correct: correct, total: total, ts: Date.now() }\<close>.
  \<open>correct\<close> and \<open>total\<close> are lengths of node lists, \<open>ts\<close> is a time in
  milliseconds: all three are natural numbers.
\<close>

record score =
  name :: string
  correct :: nat
  total :: nat
  ts :: nat

text \<open>\<^verbatim>\<open>x || 0\<close> on a number: zero is the only falsy count.\<close>

definition or0 :: "nat \<Rightarrow> nat" where
  "or0 x = (if x \<noteq> 0 then x else 0)"

text \<open>\<^verbatim>\<open>a.total ? a.correct / a.total : 0\<close> (lines 370, 380, 396, 410).\<close>

definition ratio :: "score \<Rightarrow> rat" where
  "ratio a = (if total a \<noteq> 0 then js_div (of_nat (correct a)) (of_nat (total a)) else 0)"

text \<open>
  The four comparators of lines 362, 365, 368-376 and 379-385. A comparator returns a
  number and \<^verbatim>\<open>sort\<close> reads its sign only; the difference of two doubles has the
  sign of the exact difference, so the subtractions are written exactly.
\<close>

definition cmp_newest :: "score \<Rightarrow> score \<Rightarrow> rat" where
  "cmp_newest a b = of_nat (or0 (ts b)) - of_nat (or0 (ts a))"

definition cmp_oldest :: "score \<Rightarrow> score \<Rightarrow> rat" where
  "cmp_oldest a b = of_nat (or0 (ts a)) - of_nat (or0 (ts b))"

definition cmp_highest :: "score \<Rightarrow> score \<Rightarrow> rat" where
  "cmp_highest a b =
     (let ra = ratio a; rb = ratio b
      in if rb \<noteq> ra then rb - ra
         else of_nat (or0 (ts b)) - of_nat (or0 (ts a)))"

definition cmp_lowest :: "score \<Rightarrow> score \<Rightarrow> rat" where
  "cmp_lowest a b =
     (let ra = ratio a; rb = ratio b
      in if ra \<noteq> rb then ra - rb
         else of_nat (or0 (ts a)) - of_nat (or0 (ts b)))"

text \<open>
  \<^verbatim>\<open>Array.prototype.sort(cmp)\<close> is a stable sort (ECMAScript 2019). For a
  consistent comparator its result is determined: the elements in the order of \<open>cmp\<close>,
  equal ones in their original order. Stable insertion computes that list: an element
  goes in front of the first later element that does not have to precede it.
\<close>

fun insert_by :: "('a \<Rightarrow> 'a \<Rightarrow> rat) \<Rightarrow> 'a \<Rightarrow> 'a list \<Rightarrow> 'a list" where
  "insert_by cmp x [] = [x]"
| "insert_by cmp x (y # ys) =
     (if cmp x y \<le> 0 then x # y # ys else y # insert_by cmp x ys)"

definition Array_sort :: "('a \<Rightarrow> 'a \<Rightarrow> rat) \<Rightarrow> 'a list \<Rightarrow> 'a list" where
  "Array_sort cmp xs = foldr (insert_by cmp) xs []"

text \<open>Lines 359-386: the \<^verbatim>\<open>if\<close> chain over the preference; no final \<^verbatim>\<open>else\<close>.\<close>

definition sortScores :: "string \<Rightarrow> score list \<Rightarrow> score list" where
  "sortScores pref scores =
     (if pref = ''newest'' then Array_sort cmp_newest scores
      else if pref = ''oldest'' then Array_sort cmp_oldest scores
      else if pref = ''highest'' then Array_sort cmp_highest scores
      else if pref = ''lowest'' then Array_sort cmp_lowest scores
      else scores)"

text \<open>\<^verbatim>\<open>Math.round((s.total ? s.correct / s.total : 0) * 100)\<close> (lines 396 and 410).\<close>

definition percent :: "score \<Rightarrow> int" where
  "percent s = Math_round (js_mul (ratio s) 100)"

text \<open>Lines 389-400: \<^verbatim>\<open>null\<close> for no scores, else a \<^verbatim>\<open>reduce\<close> from 0.\<close>

definition topPercent :: "score list \<Rightarrow> int option" where
  "topPercent scores =
     (if length scores > 0
      then Some (foldl (\<lambda>best s. let pct = percent s in if pct > best then pct else best) 0 scores)
      else None)"

text \<open>The test of line 412.\<close>

definition is_top :: "int option \<Rightarrow> score \<Rightarrow> bool" where
  "is_top tp s = (tp \<noteq> None \<and> Some (percent s) = tp)"

text \<open>Lines 403-417: \<^verbatim>\<open>topCount\<close> after the \<^verbatim>\<open>forEach\<close>.\<close>

definition topCount :: "int option \<Rightarrow> score list \<Rightarrow> nat" where
  "topCount tp scores = foldl (\<lambda>n s. if is_top tp s then n + 1 else n) 0 scores"

text \<open>
  The percentage as the specification words it, \<open>round (100 * correct / total)\<close> with 0
  for \<open>total = 0\<close>, to compare with \<open>percent\<close>; the records in the range of the
  comparison; and the records whose exact percentage is half way between two integers.
\<close>

definition spec_percent :: "score \<Rightarrow> int" where
  "spec_percent r =
     (if total r = 0 then 0 else round (100 * of_nat (correct r) / of_nat (total r) :: rat))"

definition in_range :: "score \<Rightarrow> bool" where
  "in_range r = (correct r \<le> total r \<and> total r \<le> 2 ^ 32)"

definition half_way :: "score \<Rightarrow> bool" where
  "half_way r = (total r dvd 200 * correct r \<and> \<not> total r dvd 100 * correct r)"

text \<open>
  The ratio as the specification words it, the exact quotient \<open>correct / total\<close> (0 for
  \<open>total = 0\<close>), to compare with \<open>ratio\<close>; and the records on which the comparison is
  made.
\<close>

definition spec_ratio :: "score \<Rightarrow> rat" where
  "spec_ratio r = (if total r = 0 then 0 else of_nat (correct r) / of_nat (total r))"

definition small :: "score \<Rightarrow> bool" where
  "small r = (correct r \<le> total r \<and> total r \<le> 2 ^ 25)"

section \<open>JSON\<close>

text \<open>
  The scores are kept as JSON text. \<open>json\<close> holds the values that
  \<^verbatim>\<open>JSON.parse\<close> returns, over the alphabet of 8-bit characters: numbers are the
  integers of magnitude at most \<open>2 ^ 53\<close> (each is a double), an object is the list of
  its properties in insertion order.

  \<open>err\<close> has the two exceptions of the program and \<open>Beyond\<close>, the answer of the
  model where it does not follow JavaScript. The parser reads the whole JSON grammar and
  answers \<open>SyntaxError\<close> on every text outside it; it answers \<open>Beyond\<close> only on a text
  of the grammar whose value the model does not hold: one with a number that has a
  fraction or an exponent or a magnitude above \<open>2 ^ 53\<close> or is \<^verbatim>\<open>-0\<close>, with a
  \<^verbatim>\<open>u\<close> escape above \<^verbatim>\<open>00FF\<close>, or with an object that has a repeated key or a key
  made of digits (JavaScript reorders these). \<open>Beyond\<close> says nothing about the program.
\<close>

datatype json =
    JNull
  | JBool bool
  | JNum int
  | JStr string
  | JArr "json list"
  | JObj "(string \<times> json) list"

datatype err = SyntaxError | TypeError | Beyond

text \<open>
  White space and decimal digits of the JSON grammar; the digits of a natural number as
  \<^verbatim>\<open>JSON.stringify\<close> prints an integer, and their value when read.
\<close>

definition is_ws :: "char \<Rightarrow> bool" where
  "is_ws c = (c = CHR '' '' \<or> c = CHR 0x09 \<or> c = CHR 0x0A \<or> c = CHR 0x0D)"

definition skip_ws :: "string \<Rightarrow> string" where
  "skip_ws s = dropWhile is_ws s"

definition is_digit :: "char \<Rightarrow> bool" where
  "is_digit c = (48 \<le> (of_char c :: nat) \<and> (of_char c :: nat) \<le> 57)"

definition digit_val :: "char \<Rightarrow> nat" where
  "digit_val c = of_char c - 48"

definition digit_char :: "nat \<Rightarrow> char" where
  "digit_char d = ''0123456789'' ! d"

fun show_nat :: "nat \<Rightarrow> string" where
  "show_nat n = (if n < 10 then [digit_char n] else show_nat (n div 10) @ [digit_char (n mod 10)])"

declare show_nat.simps [simp del]

definition show_int :: "int \<Rightarrow> string" where
  "show_int i = (if i < 0 then CHR ''-'' # show_nat (nat (- i)) else show_nat (nat i))"

definition read_nat :: "string \<Rightarrow> nat" where
  "read_nat ds = foldl (\<lambda>n c. 10 * n + digit_val c) 0 ds"

text \<open>
  A part of a text that is in the grammar and outside the model is read as \<open>None\<close>, and
  so is every value that has such a part.
\<close>

definition opt_cons :: "'a option \<Rightarrow> 'a list option \<Rightarrow> 'a list option" where
  "opt_cons x xs = (case x of None \<Rightarrow> None | Some a \<Rightarrow> map_option ((#) a) xs)"

definition opt_pair :: "'a option \<Rightarrow> 'b option \<Rightarrow> ('a \<times> 'b) option" where
  "opt_pair x y = (case x of None \<Rightarrow> None | Some a \<Rightarrow> map_option (Pair a) y)"

text \<open>
  Strings: the hexadecimal digits of a \<^verbatim>\<open>u\<close> escape, the one-letter escapes, and the
  lexer of the characters after an opening quote, which returns the string and the text
  after the closing quote. A control character must be escaped.
\<close>

definition hex_val :: "char \<Rightarrow> nat option" where
  "hex_val c =
     (let n = (of_char c :: nat)
      in if 48 \<le> n \<and> n \<le> 57 then Some (n - 48)
         else if 65 \<le> n \<and> n \<le> 70 then Some (n - 55)
         else if 97 \<le> n \<and> n \<le> 102 then Some (n - 87)
         else None)"

definition hex_char :: "nat \<Rightarrow> char" where
  "hex_char d = ''0123456789abcdef'' ! d"

definition unescape :: "char \<Rightarrow> char option" where
  "unescape e =
     (if e = CHR 0x22 then Some (CHR 0x22)
      else if e = CHR 0x5C then Some (CHR 0x5C)
      else if e = CHR ''/'' then Some (CHR ''/'')
      else if e = CHR ''b'' then Some (CHR 0x08)
      else if e = CHR ''f'' then Some (CHR 0x0C)
      else if e = CHR ''n'' then Some (CHR 0x0A)
      else if e = CHR ''r'' then Some (CHR 0x0D)
      else if e = CHR ''t'' then Some (CHR 0x09)
      else None)"

definition lex_cons ::
  "char option \<Rightarrow> err + (string option \<times> string) \<Rightarrow> err + (string option \<times> string)" where
  "lex_cons c r = (case r of Inl x \<Rightarrow> Inl x | Inr (str, rest) \<Rightarrow> Inr (opt_cons c str, rest))"

fun lex_string :: "string \<Rightarrow> err + (string option \<times> string)" where
  "lex_string [] = Inl SyntaxError"
| "lex_string (c # cs) =
     (if c = CHR 0x22 then Inr (Some [], cs)
      else if c = CHR 0x5C then
        (case cs of
           [] \<Rightarrow> Inl SyntaxError
         | e # es \<Rightarrow>
             if e = CHR ''u'' then
               (case es of
                  h1 # h2 # h3 # h4 # rest \<Rightarrow>
                    (case (hex_val h1, hex_val h2, hex_val h3, hex_val h4) of
                       (Some a, Some b, Some c, Some d) \<Rightarrow>
                         lex_cons (if a = 0 \<and> b = 0 then Some (char_of (16 * c + d)) else None)
                           (lex_string rest)
                     | _ \<Rightarrow> Inl SyntaxError)
                | _ \<Rightarrow> Inl SyntaxError)
             else
               (case unescape e of
                  None \<Rightarrow> Inl SyntaxError
                | Some ch \<Rightarrow> lex_cons (Some ch) (lex_string es)))
      else if (of_char c :: nat) < 32 then Inl SyntaxError
      else lex_cons (Some c) (lex_string cs))"

text \<open>
  Numbers: an optional sign, digits with no leading zero, an optional fraction (a point
  and digits) and an optional exponent (a letter, an optional sign and digits). Each of
  the last two returns whether it was there and the text after it, or \<open>None\<close> when its
  digits are missing. The number is in the model when it has neither, is at most
  \<open>2 ^ 53\<close> in magnitude and is not \<^verbatim>\<open>-0\<close>.
\<close>

definition lex_frac :: "string \<Rightarrow> (bool \<times> string) option" where
  "lex_frac s =
     (if s \<noteq> [] \<and> hd s = CHR ''.'' then
        (if takeWhile is_digit (tl s) = [] then None
         else Some (True, dropWhile is_digit (tl s)))
      else Some (False, s))"

definition lex_exp :: "string \<Rightarrow> (bool \<times> string) option" where
  "lex_exp s =
     (if s \<noteq> [] \<and> (hd s = CHR ''e'' \<or> hd s = CHR ''E'') then
        (let s1 = tl s;
             s2 = (if s1 \<noteq> [] \<and> (hd s1 = CHR ''+'' \<or> hd s1 = CHR ''-'') then tl s1 else s1)
         in if takeWhile is_digit s2 = [] then None
            else Some (True, dropWhile is_digit s2))
      else Some (False, s))"

definition lex_number :: "string \<Rightarrow> err + (int option \<times> string)" where
  "lex_number s =
     (let neg = (s \<noteq> [] \<and> hd s = CHR ''-'');
          s1 = (if neg then tl s else s);
          ds = takeWhile is_digit s1
      in if ds = [] then Inl SyntaxError
         else if hd ds = CHR ''0'' \<and> length ds > 1 then Inl SyntaxError
         else
           (case lex_frac (dropWhile is_digit s1) of
              None \<Rightarrow> Inl SyntaxError
            | Some (has_frac, s2) \<Rightarrow>
                (case lex_exp s2 of
                   None \<Rightarrow> Inl SyntaxError
                 | Some (has_exp, rest) \<Rightarrow>
                     if has_frac \<or> has_exp \<or> 2 ^ 53 < read_nat ds \<or> (neg \<and> read_nat ds = 0)
                     then Inr (None, rest)
                     else Inr (Some (if neg then - int (read_nat ds) else int (read_nat ds)), rest))))"

text \<open>
  Objects keep their properties in the order of the text when the keys are distinct and
  none is written with digits only.
\<close>

definition index_key :: "string \<Rightarrow> bool" where
  "index_key k = (k \<noteq> [] \<and> list_all is_digit k)"

definition make_object :: "(string \<times> json) list \<Rightarrow> json option" where
  "make_object kvs =
     (if distinct (map fst kvs) \<and> \<not> list_ex index_key (map fst kvs)
      then Some (JObj kvs) else None)"

text \<open>
  The recursive-descent parser of values, of the elements of an array after its opening
  bracket and of the properties of an object after its opening brace. Each call uses one
  unit of fuel and answers \<open>Beyond\<close> when none is left; \<^verbatim>\<open>JSON.parse\<close> gives it
  more than twice the length of the text, with which it never runs out
  (\<open>JSON_parse_Beyond\<close> below), and accepts a value followed by white space only.
\<close>

fun parse_value :: "nat \<Rightarrow> string \<Rightarrow> err + (json option \<times> string)"
  and parse_elems :: "nat \<Rightarrow> string \<Rightarrow> err + (json list option \<times> string)"
  and parse_members :: "nat \<Rightarrow> string \<Rightarrow> err + ((string \<times> json) list option \<times> string)"
where
  "parse_value 0 s = Inl Beyond"
| "parse_value (Suc n) s =
     (case skip_ws s of
        [] \<Rightarrow> Inl SyntaxError
      | c # cs \<Rightarrow>
          if c = CHR ''['' then
            (if skip_ws cs \<noteq> [] \<and> hd (skip_ws cs) = CHR '']''
             then Inr (Some (JArr []), tl (skip_ws cs))
             else case parse_elems n cs of
                    Inl e \<Rightarrow> Inl e
                  | Inr (vs, rest) \<Rightarrow> Inr (map_option JArr vs, rest))
          else if c = CHR ''{'' then
            (if skip_ws cs \<noteq> [] \<and> hd (skip_ws cs) = CHR ''}''
             then Inr (Some (JObj []), tl (skip_ws cs))
             else case parse_members n cs of
                    Inl e \<Rightarrow> Inl e
                  | Inr (kvs, rest) \<Rightarrow> Inr (Option.bind kvs make_object, rest))
          else if c = CHR 0x22 then
            (case lex_string cs of
               Inl e \<Rightarrow> Inl e
             | Inr (str, rest) \<Rightarrow> Inr (map_option JStr str, rest))
          else if c = CHR ''-'' \<or> is_digit c then
            (case lex_number (c # cs) of
               Inl e \<Rightarrow> Inl e
             | Inr (i, rest) \<Rightarrow> Inr (map_option JNum i, rest))
          else if take 4 (c # cs) = ''true'' then Inr (Some (JBool True), drop 4 (c # cs))
          else if take 5 (c # cs) = ''false'' then Inr (Some (JBool False), drop 5 (c # cs))
          else if take 4 (c # cs) = ''null'' then Inr (Some JNull, drop 4 (c # cs))
          else Inl SyntaxError)"
| "parse_elems 0 s = Inl Beyond"
| "parse_elems (Suc n) s =
     (case parse_value n s of
        Inl e \<Rightarrow> Inl e
      | Inr (v, rest) \<Rightarrow>
          (case skip_ws rest of
             [] \<Rightarrow> Inl SyntaxError
           | c # cs \<Rightarrow>
               if c = CHR '','' then
                 (case parse_elems n cs of
                    Inl e \<Rightarrow> Inl e
                  | Inr (vs, rest') \<Rightarrow> Inr (opt_cons v vs, rest'))
               else if c = CHR '']'' then Inr (opt_cons v (Some []), cs)
               else Inl SyntaxError))"
| "parse_members 0 s = Inl Beyond"
| "parse_members (Suc n) s =
     (case skip_ws s of
        [] \<Rightarrow> Inl SyntaxError
      | q # s1 \<Rightarrow>
          if q \<noteq> CHR 0x22 then Inl SyntaxError
          else
            (case lex_string s1 of
               Inl e \<Rightarrow> Inl e
             | Inr (k, s2) \<Rightarrow>
                 (case skip_ws s2 of
                    [] \<Rightarrow> Inl SyntaxError
                  | d # s3 \<Rightarrow>
                      if d \<noteq> CHR '':'' then Inl SyntaxError
                      else
                        (case parse_value n s3 of
                           Inl e \<Rightarrow> Inl e
                         | Inr (v, s4) \<Rightarrow>
                             (case skip_ws s4 of
                                [] \<Rightarrow> Inl SyntaxError
                              | c # s5 \<Rightarrow>
                                  if c = CHR '','' then
                                    (case parse_members n s5 of
                                       Inl e \<Rightarrow> Inl e
                                     | Inr (kvs, rest) \<Rightarrow> Inr (opt_cons (opt_pair k v) kvs, rest))
                                  else if c = CHR ''}'' then
                                    Inr (opt_cons (opt_pair k v) (Some []), s5)
                                  else Inl SyntaxError)))))"

definition JSON_parse :: "string \<Rightarrow> err + json" where
  "JSON_parse s =
     (case parse_value (Suc (length s + length s)) s of
        Inl e \<Rightarrow> Inl e
      | Inr (v, rest) \<Rightarrow>
          if skip_ws rest \<noteq> [] then Inl SyntaxError
          else (case v of None \<Rightarrow> Inl Beyond | Some x \<Rightarrow> Inr x))"

text \<open>
  \<^verbatim>\<open>JSON.stringify\<close> with one argument prints no white space; in a string it escapes
  the quote, the backslash and the control characters.
\<close>

definition escape_char :: "char \<Rightarrow> string" where
  "escape_char c =
     (if c = CHR 0x22 then [CHR 0x5C, CHR 0x22]
      else if c = CHR 0x5C then [CHR 0x5C, CHR 0x5C]
      else if c = CHR 0x08 then [CHR 0x5C, CHR ''b'']
      else if c = CHR 0x0C then [CHR 0x5C, CHR ''f'']
      else if c = CHR 0x0A then [CHR 0x5C, CHR ''n'']
      else if c = CHR 0x0D then [CHR 0x5C, CHR ''r'']
      else if c = CHR 0x09 then [CHR 0x5C, CHR ''t'']
      else if (of_char c :: nat) < 32
        then [CHR 0x5C, CHR ''u'', CHR ''0'', CHR ''0'',
              hex_char (of_char c div 16), hex_char (of_char c mod 16)]
      else [c])"

definition quote :: "string \<Rightarrow> string" where
  "quote s = CHR 0x22 # concat (map escape_char s) @ [CHR 0x22]"

fun commas :: "string list \<Rightarrow> string" where
  "commas [] = []"
| "commas [x] = x"
| "commas (x # y # zs) = x @ CHR '','' # commas (y # zs)"

fun JSON_stringify :: "json \<Rightarrow> string" where
  "JSON_stringify JNull = ''null''"
| "JSON_stringify (JBool b) = (if b then ''true'' else ''false'')"
| "JSON_stringify (JNum i) = show_int i"
| "JSON_stringify (JStr s) = quote s"
| "JSON_stringify (JArr vs) = CHR ''['' # commas (map JSON_stringify vs) @ '']''"
| "JSON_stringify (JObj kvs) =
     CHR ''{'' # commas (map (\<lambda>(k, v). quote k @ CHR '':'' # JSON_stringify v) kvs) @ ''}''"

text \<open>
  The values on which the model follows JavaScript: integers of magnitude at most
  \<open>2 ^ 53\<close>, objects with distinct keys of which none is written with digits only.
\<close>

fun json_ok :: "json \<Rightarrow> bool" where
  "json_ok (JNum i) = (\<bar>i\<bar> \<le> 2 ^ 53)"
| "json_ok (JArr vs) = list_all json_ok vs"
| "json_ok (JObj kvs) =
     (distinct (map fst kvs) \<and> \<not> list_ex index_key (map fst kvs) \<and>
      list_all (\<lambda>kv. json_ok (snd kv)) kvs)"
| "json_ok _ = True"

text \<open>
  Notions for the proof that printed text is read back: the text that can follow a
  printed value, the characters that open a value, the induction invariant, and one
  printed property.
\<close>

definition ends_value :: "string \<Rightarrow> bool" where
  "ends_value rest = (rest = [] \<or> hd rest = CHR '','' \<or> hd rest = CHR '']'' \<or> hd rest = CHR ''}'')"

definition opens_value :: "char \<Rightarrow> bool" where
  "opens_value c = (\<not> is_ws c \<and> c \<noteq> CHR '']'' \<and> c \<noteq> CHR ''}'')"

definition reads_back :: "json \<Rightarrow> bool" where
  "reads_back v = (\<forall>n rest. ends_value rest \<longrightarrow> length (JSON_stringify v) \<le> n \<longrightarrow>
     parse_value n (JSON_stringify v @ rest) = Inr (Some v, rest))"

definition member_text :: "string \<times> json \<Rightarrow> string" where
  "member_text kv = quote (fst kv) @ CHR '':'' # JSON_stringify (snd kv)"

section \<open>Local storage\<close>

text \<open>
  \<^verbatim>\<open>localStorage\<close> maps keys to strings: \<^verbatim>\<open>getItem\<close> is the lookup
  (\<^verbatim>\<open>null\<close> is \<open>None\<close>), \<^verbatim>\<open>setItem\<close> the update, \<^verbatim>\<open>removeItem\<close>
  the deletion.
\<close>

type_synonym storage = "string \<rightharpoonup> string"

text \<open>Lines 295-300: \<^verbatim>\<open>pref || "newest"\<close>; the empty string is the only falsy string.\<close>

definition getSortPreference :: "storage \<Rightarrow> string" where
  "getSortPreference ls =
     (case ls ''scoreSort'' of
        None \<Rightarrow> ''newest''
      | Some pref \<Rightarrow> if pref \<noteq> [] then pref else ''newest'')"

text \<open>Lines 310-326. \<^verbatim>\<open>!raw\<close> holds of \<^verbatim>\<open>null\<close> and of the empty string.
  The \<^verbatim>\<open>catch\<close> turns the exception of \<^verbatim>\<open>JSON.parse\<close> into an empty array; the
  message on the console is not modelled.\<close>

definition getScoresFromStorage :: "storage \<Rightarrow> err + json" where
  "getScoresFromStorage ls =
     (case ls ''scores'' of
        None \<Rightarrow> Inr (JArr [])
      | Some raw \<Rightarrow>
          if raw = [] then Inr (JArr [])
          else (case JSON_parse raw of
                  Inr v \<Rightarrow> Inr v
                | Inl Beyond \<Rightarrow> Inl Beyond
                | Inl _ \<Rightarrow> Inr (JArr [])))"

text \<open>Lines 329-334.\<close>

definition setScoresInStorage :: "storage \<Rightarrow> json \<Rightarrow> storage" where
  "setScoresInStorage ls scoresArray = ls(''scores'' \<mapsto> JSON_stringify scoresArray)"

text \<open>The object literal of line 341.\<close>

definition score_json :: "score \<Rightarrow> json" where
  "score_json r =
     JObj [(''name'', JStr (name r)), (''correct'', JNum (int (correct r))),
           (''total'', JNum (int (total r))), (''ts'', JNum (int (ts r)))]"

definition scores_json :: "score list \<Rightarrow> json" where
  "scores_json xs = JArr (map score_json xs)"

text \<open>A record whose three numbers are integers that a double holds exactly.\<close>

definition representable :: "score \<Rightarrow> bool" where
  "representable r = (correct r \<le> 2 ^ 53 \<and> total r \<le> 2 ^ 53 \<and> ts r \<le> 2 ^ 53)"

text \<open>
  Lines 337-346. \<^verbatim>\<open>scores.push\<close> is a function only when the stored value is an
  array; on any other value the call raises a TypeError.
\<close>

definition saveScoreToStorage :: "storage \<Rightarrow> string \<Rightarrow> nat \<Rightarrow> nat \<Rightarrow> nat \<Rightarrow> err + storage" where
  "saveScoreToStorage ls nm c t now =
     (case getScoresFromStorage ls of
        Inl e \<Rightarrow> Inl e
      | Inr (JArr vs) \<Rightarrow>
          Inr (setScoresInStorage ls
                 (JArr (vs @ [score_json \<lparr>name = nm, correct = c, total = t, ts = now\<rparr>])))
      | Inr _ \<Rightarrow> Inl TypeError)"

text \<open>
  \<^verbatim>\<open>displayScores\<close> reads \<^verbatim>\<open>name\<close>, \<^verbatim>\<open>correct\<close>, \<^verbatim>\<open>total\<close> and
  \<^verbatim>\<open>ts\<close> of each element. The model follows it on the elements where these are a
  string and three natural numbers, the score records; other properties are ignored, as
  the code ignores them.
\<close>

definition as_count :: "json option \<Rightarrow> nat option" where
  "as_count v = (case v of Some (JNum i) \<Rightarrow> if 0 \<le> i then Some (nat i) else None | _ \<Rightarrow> None)"

definition as_score :: "json \<Rightarrow> score option" where
  "as_score v =
     (case v of
        JObj kvs \<Rightarrow>
          (case (map_of kvs ''name'', as_count (map_of kvs ''correct''),
                 as_count (map_of kvs ''total''), as_count (map_of kvs ''ts'')) of
             (Some (JStr nm), Some c, Some t, Some s) \<Rightarrow>
               Some \<lparr>name = nm, correct = c, total = t, ts = s\<rparr>
           | _ \<Rightarrow> None)
      | _ \<Rightarrow> None)"

fun as_scores :: "json list \<Rightarrow> score list option" where
  "as_scores [] = Some []"
| "as_scores (v # vs) =
     (case as_score v of
        None \<Rightarrow> None
      | Some r \<Rightarrow> (case as_scores vs of None \<Rightarrow> None | Some rs \<Rightarrow> Some (r # rs)))"

text \<open>The persisted sequence of score records, when the stored value is one.\<close>

definition persisted :: "storage \<Rightarrow> score list option" where
  "persisted ls =
     (case getScoresFromStorage ls of Inr (JArr vs) \<Rightarrow> as_scores vs | _ \<Rightarrow> None)"

section \<open>The page\<close>

text \<open>
  The part of the document that the handlers read and write. A table row has the class
  \<^verbatim>\<open>top\<close> or not, and two cells. The text of the top-score box is kept in its parts:
  the percentage (\<^verbatim>\<open>null\<close> is \<open>None\<close>), the count and the label. A question block holds
  the radio inputs that \<^verbatim>\<open>createAnswerOptions\<close> named after the index of the block;
  the page has no other radio input.
\<close>

record row =
  row_top :: bool
  row_name :: string
  row_score :: string

datatype summary = NoSummary | TopSummary "int option" nat string

record radio =
  checked :: bool
  data_correct :: bool
  label_correct :: bool
  label_incorrect :: bool

record block =
  invalid :: bool
  radios :: "radio list"

record page =
  localStorage :: storage
  tbody :: "row list"
  topScoreBox :: summary
  topScoreBox_hidden :: bool
  blocks :: "block list"
  usernameInput :: string
  resultSummary :: string
  resultSummary_hidden :: bool
  newPlayerButton_hidden :: bool
  submit_disabled :: bool
  alerts :: "string list"

text \<open>Lines 406-432: one row of the table.\<close>

definition render_row :: "int option \<Rightarrow> score \<Rightarrow> row" where
  "render_row tp s =
     \<lparr>row_top = is_top tp s, row_name = name s,
      row_score = show_nat (correct s) @ ''/'' @ show_nat (total s)\<rparr>"

text \<open>
  Lines 349-450. A stored value that is not an array has no \<^verbatim>\<open>sort\<close>,
  \<^verbatim>\<open>reduce\<close> or \<^verbatim>\<open>forEach\<close> function, and \<^verbatim>\<open>null\<close> has no property at all: one
  of the calls raises a TypeError whatever the preference is. An array with an element
  that is not a score record is beyond the model.
\<close>

definition displayScores :: "page \<Rightarrow> err + page" where
  "displayScores p =
     (case getScoresFromStorage (localStorage p) of
        Inl e \<Rightarrow> Inl e
      | Inr (JArr vs) \<Rightarrow>
          (case as_scores vs of
             None \<Rightarrow> Inl Beyond
           | Some stored \<Rightarrow>
               let pref = getSortPreference (localStorage p);
                   scores = sortScores pref stored;
                   tp = topPercent scores;
                   n = topCount tp scores;
                   p1 = p\<lparr>tbody := map (render_row tp) scores\<rparr>
               in if length scores = 0
                  then Inr (p1\<lparr>topScoreBox := NoSummary, topScoreBox_hidden := True\<rparr>)
                  else Inr (p1\<lparr>topScoreBox :=
                                   TopSummary tp n (if n = 1 then ''player'' else ''players''),
                                 topScoreBox_hidden := False\<rparr>))
      | Inr _ \<Rightarrow> Inl TypeError)"

text \<open>Lines 486-496; \<open>ok\<close> is the answer to \<^verbatim>\<open>window.confirm\<close>.\<close>

definition clearScores :: "bool \<Rightarrow> page \<Rightarrow> err + page" where
  "clearScores ok p =
     (if ok then displayScores (p\<lparr>localStorage := (localStorage p)(''scores'' := None)\<rparr>)
      else Inr p)"

text \<open>
  \<^verbatim>\<open>String.prototype.trim\<close> removes white space and line terminators at both ends;
  among the 8-bit characters these are the codes 9 to 13, 32 and 160.
\<close>

definition is_space :: "char \<Rightarrow> bool" where
  "is_space c = ((of_char c :: nat) \<in> {9, 10, 11, 12, 13, 32, 160})"

definition trim :: "string \<Rightarrow> string" where
  "trim s = rev (dropWhile is_space (rev (dropWhile is_space s)))"

text \<open>
  \<^verbatim>\<open>document.querySelector('input[name="answer' + i + '"]:checked')\<close> finds a checked
  radio of block \<open>i\<close>, if there is one.
\<close>

definition selected :: "block \<Rightarrow> radio option" where
  "selected b = find checked (radios b)"

text \<open>Lines 188-205: every block gets or loses the class \<^verbatim>\<open>invalid\<close>.\<close>

definition mark_invalid :: "block \<Rightarrow> block" where
  "mark_invalid b = b\<lparr>invalid := (selected b = None)\<rparr>"

definition firstUnanswered :: "block list \<Rightarrow> block option" where
  "firstUnanswered bs = find (\<lambda>b. selected b = None) bs"

text \<open>Lines 234-238: the two counts of the score.\<close>

definition totalQuestions :: "page \<Rightarrow> nat" where
  "totalQuestions p = length (blocks p)"

definition correctSelections :: "page \<Rightarrow> nat" where
  "correctSelections p =
     length (filter (\<lambda>r. data_correct r \<and> checked r) (concat (map radios (blocks p))))"

text \<open>
  Lines 241-256: in every block the label of the first radio marked correct gets the class
  \<^verbatim>\<open>correct\<close>, and the label of the checked radio gets \<^verbatim>\<open>incorrect\<close> when it is
  another one.
\<close>

definition first_index :: "('a \<Rightarrow> bool) \<Rightarrow> 'a list \<Rightarrow> nat option" where
  "first_index P xs = (if list_ex P xs then Some (length (takeWhile (\<lambda>x. \<not> P x) xs)) else None)"

definition mark_labels :: "block \<Rightarrow> block" where
  "mark_labels b =
     (let ci = first_index data_correct (radios b);
          si = first_index checked (radios b)
      in b\<lparr>radios :=
             map (\<lambda>(j, r). r\<lparr>label_correct := label_correct r \<or> ci = Some j,
                             label_incorrect := label_incorrect r \<or> (si = Some j \<and> si \<noteq> ci)\<rparr>)
               (enumerate 0 (radios b))\<rparr>)"

text \<open>
  Lines 179-292; \<open>now\<close> is the value of \<^verbatim>\<open>Date.now()\<close>. Focus and scrolling
  change nothing that is read later and are left out. An exception leaves the handler
  at the call that raises it.
\<close>

definition handleFormSubmit :: "nat \<Rightarrow> page \<Rightarrow> err + page" where
  "handleFormSubmit now p =
     (let p1 = p\<lparr>blocks := map mark_invalid (blocks p)\<rparr>
      in if firstUnanswered (blocks p) \<noteq> None
         then Inr (p1\<lparr>alerts := alerts p1 @ [''Please answer all questions before submitting.'']\<rparr>)
         else
           let trimmed = trim (usernameInput p1)
           in if trimmed = []
              then Inr (p1\<lparr>alerts := alerts p1 @ [''Please enter your name before finishing the game.'']\<rparr>)
              else
                let t = totalQuestions p1;
                    c = correctSelections p1;
                    score_text = show_nat c @ ''/'' @ show_nat t;
                    p2 = p1\<lparr>blocks := map mark_labels (blocks p1),
                            resultSummary := ''Nice job, '' @ trimmed @ ''! You scored '' @ score_text @ ''.'',
                            resultSummary_hidden := False,
                            tbody := tbody p1 @ [\<lparr>row_top = False, row_name = trimmed, row_score = score_text\<rparr>]\<rparr>
                in case saveScoreToStorage (localStorage p2) trimmed c t now of
                     Inl e \<Rightarrow> Inl e
                   | Inr ls \<Rightarrow>
                       (case displayScores (p2\<lparr>localStorage := ls\<rparr>) of
                          Inl e \<Rightarrow> Inl e
                        | Inr p3 \<Rightarrow> Inr (p3\<lparr>newPlayerButton_hidden := False, submit_disabled := True\<rparr>)))"

text \<open>The record that \<^verbatim>\<open>handleFormSubmit\<close> passes to \<^verbatim>\<open>saveScoreToStorage\<close>
  (line 284) once both checks have passed.\<close>

definition graded :: "nat \<Rightarrow> page \<Rightarrow> score" where
  "graded now p =
     \<lparr>name = trim (usernameInput p), correct = correctSelections p,
      total = totalQuestions p, ts = now\<rparr>"

section \<open>Example pages\<close>

text \<open>The page before any question or score is shown, and the three records of the
  specification's Scenario A with the timestamps 1, 2 and 3, as stored text.\<close>

definition blank :: page where
  "blank =
     \<lparr>localStorage = Map.empty, tbody = [], topScoreBox = NoSummary, topScoreBox_hidden = True,
      blocks = [], usernameInput = [], resultSummary = [], resultSummary_hidden = True,
      newPlayerButton_hidden = True, submit_disabled = False, alerts = []\<rparr>"

definition scenario_text :: string where
  \<open>scenario_text = ''[{"name":"A","correct":7,"total":10,"ts":1},{"name":"B","correct":9,"total":10,"ts":2},{"name":"C","correct":5,"total":10,"ts":3}]''\<close>

definition scenario :: "score list" where
  "scenario =
     [\<lparr>name = ''A'', correct = 7, total = 10, ts = 1\<rparr>,
      \<lparr>name = ''B'', correct = 9, total = 10, ts = 2\<rparr>,
      \<lparr>name = ''C'', correct = 5, total = 10, ts = 3\<rparr>]"

text \<open>A quiz of two questions: the first answered right, the second wrong, by a player who
  typed a name with blanks around it.\<close>

definition answer :: "bool \<Rightarrow> bool \<Rightarrow> radio" where
  "answer c d = \<lparr>checked = c, data_correct = d, label_correct = False, label_incorrect = False\<rparr>"

definition quiz :: page where
  "quiz =
     blank\<lparr>blocks := [\<lparr>invalid = False, radios = [answer True True, answer False False]\<rparr>,
                       \<lparr>invalid = False, radios = [answer False True, answer True False]\<rparr>],
           usernameInput := '' Ann ''\<rparr>"

section \<open>Properties of the number model\<close>

lemma pow2_power_int: "pow2 e = power_int 2 e"
  by (simp add: pow2_def power_int_def field_simps)

lemma pow2_pos: "0 < pow2 e"
  by (simp add: pow2_def)

lemma round_even_nonneg: "0 \<le> m \<Longrightarrow> 0 \<le> round_even m"
  by (auto simp: round_even_def Let_def intro: add_nonneg_nonneg)

lemma fl_nonneg: "0 \<le> x \<Longrightarrow> 0 \<le> fl x"
proof -
  assume x: "0 \<le> x"
  have "0 \<le> of_int (round_even (\<bar>x\<bar> / pow2 (ilog2 \<bar>x\<bar> - 52))) * pow2 (ilog2 \<bar>x\<bar> - 52)"
    using pow2_pos [of "ilog2 \<bar>x\<bar> - 52"]
    by (intro mult_nonneg_nonneg) (simp_all add: round_even_nonneg)
  with x show ?thesis
    by (simp add: fl_def Let_def)
qed

lemma ratio_nonneg: "0 \<le> ratio s"
  by (simp add: ratio_def js_div_def fl_nonneg)

lemma percent_nonneg: "0 \<le> percent s"
proof -
  have "0 \<le> js_mul (ratio s) 100"
    by (simp add: js_mul_def fl_nonneg ratio_nonneg)
  then show ?thesis
    by (simp add: percent_def Math_round_def)
qed

subsection \<open>The error of rounding to a double\<close>

lemma pow2_add: "pow2 (a + b) = pow2 a * pow2 b"
  by (simp add: pow2_power_int power_int_add)

lemma pow2_diff: "pow2 (a - b) = pow2 a / pow2 b"
  by (simp add: pow2_power_int power_int_diff)

lemma pow2_nat: "pow2 (int n) = 2 ^ n"
  by (simp add: pow2_def)

lemma pow2_Suc: "pow2 (e + 1) = 2 * pow2 e"
  using pow2_add [of e 1] by (simp add: pow2_def)

lemma pow2_pred: "pow2 (e - 1) = pow2 e / 2"
  using pow2_diff [of e 1] by (simp add: pow2_def)

text \<open>The exponent that \<open>ilog2\<close> finds is the binary logarithm rounded down.\<close>

lemma ilog2_bounds:
  assumes "0 < x"
  shows "pow2 (ilog2 x) \<le> x" and "x < pow2 (ilog2 x + 1)"
proof -
  obtain p q where pq: "quotient_of x = (p, q)"
    by (cases "quotient_of x")
  then have q: "0 < q" and x: "x = of_int p / of_int q"
    by (simp_all add: quotient_of_denom_pos quotient_of_div)
  with assms have p: "0 < p"
    by (simp add: zero_less_divide_iff)
  define bp bq where "bp = bitlen p" and "bq = bitlen q"
  from bitlen_bounds [OF p] have p1: "2 ^ nat (bp - 1) \<le> p" and p2: "p < 2 ^ nat bp"
    by (simp_all add: bp_def)
  from bitlen_bounds [OF q] have q1: "2 ^ nat (bq - 1) \<le> q" and q2: "q < 2 ^ nat bq"
    by (simp_all add: bq_def)
  have bp: "1 \<le> bp" and bq: "1 \<le> bq"
    using p q by (auto simp: bp_def bq_def bitlen_alt_def)
  have P1: "pow2 (bp - 1) \<le> of_int p" and P2: "(of_int p :: rat) < pow2 bp"
  proof -
    have "pow2 (bp - 1) = of_int (2 ^ nat (bp - 1))"
      using bp by (simp add: pow2_def)
    also have "\<dots> \<le> of_int p"
      using p1 by (simp only: of_int_le_iff)
    finally show "pow2 (bp - 1) \<le> of_int p" .
    have "(of_int p :: rat) < of_int (2 ^ nat bp)"
      using p2 by (simp only: of_int_less_iff)
    also have "\<dots> = pow2 bp"
      using bp by (simp add: pow2_def)
    finally show "(of_int p :: rat) < pow2 bp" .
  qed
  have Q1: "pow2 (bq - 1) \<le> of_int q" and Q2: "(of_int q :: rat) < pow2 bq"
  proof -
    have "pow2 (bq - 1) = of_int (2 ^ nat (bq - 1))"
      using bq by (simp add: pow2_def)
    also have "\<dots> \<le> of_int q"
      using q1 by (simp only: of_int_le_iff)
    finally show "pow2 (bq - 1) \<le> of_int q" .
    have "(of_int q :: rat) < of_int (2 ^ nat bq)"
      using q2 by (simp only: of_int_less_iff)
    also have "\<dots> = pow2 bq"
      using bq by (simp add: pow2_def)
    finally show "(of_int q :: rat) < pow2 bq" .
  qed
  have qpos: "(0 :: rat) < of_int q"
    using q by simp
  have lo: "pow2 (bp - bq - 1) \<le> x"
  proof -
    have "pow2 (bp - bq - 1) * of_int q \<le> pow2 (bp - bq - 1) * pow2 bq"
      using Q2 pow2_pos [of "bp - bq - 1"] by (simp add: mult_le_cancel_left_pos)
    also have "\<dots> = pow2 (bp - 1)"
      using pow2_add [of "bp - bq - 1" bq] by (simp add: algebra_simps)
    also have "\<dots> \<le> of_int p"
      by (rule P1)
    finally show ?thesis
      using qpos by (simp add: x pos_le_divide_eq)
  qed
  have hi: "x < pow2 (bp - bq + 1)"
  proof -
    have "of_int p < pow2 bp"
      by (rule P2)
    also have "\<dots> = pow2 (bp - bq + 1) * pow2 (bq - 1)"
      using pow2_add [of "bp - bq + 1" "bq - 1"] by (simp add: algebra_simps)
    also have "\<dots> \<le> pow2 (bp - bq + 1) * of_int q"
      using Q1 pow2_pos [of "bp - bq + 1"] by (simp add: mult_le_cancel_left_pos)
    finally show ?thesis
      using qpos by (simp add: x pos_divide_less_eq)
  qed
  have il: "ilog2 x = (if pow2 (bp - bq) \<le> x then bp - bq else bp - bq - 1)"
    by (simp add: ilog2_def pq bp_def bq_def)
  show "pow2 (ilog2 x) \<le> x"
    using lo by (simp add: il)
  show "x < pow2 (ilog2 x + 1)"
    using hi by (auto simp: il not_le)
qed

lemma round_even_error: "\<bar>of_int (round_even m) - m\<bar> \<le> 1 / 2"
proof -
  define d where "d = m - of_int \<lfloor>m\<rfloor>"
  have d: "0 \<le> d" "d < 1"
    unfolding d_def by linarith+
  have m: "m = of_int \<lfloor>m\<rfloor> + d"
    by (simp add: d_def)
  consider "d < 1 / 2" | "1 / 2 < d" | "d = 1 / 2" "even \<lfloor>m\<rfloor>" | "d = 1 / 2" "odd \<lfloor>m\<rfloor>"
    by fastforce
  then show ?thesis
  proof cases
    case 1
    then have "round_even m = \<lfloor>m\<rfloor>"
      by (simp add: round_even_def Let_def d_def)
    with 1 d show ?thesis
      by (subst (2) m) simp
  next
    case 2
    then have "round_even m = \<lfloor>m\<rfloor> + 1"
      by (simp add: round_even_def Let_def d_def)
    with 2 d show ?thesis
      by (subst (2) m) simp
  next
    case 3
    then have "round_even m = \<lfloor>m\<rfloor>"
      by (simp add: round_even_def Let_def d_def)
    with 3 show ?thesis
      by (subst (2) m) simp
  next
    case 4
    then have "round_even m = \<lfloor>m\<rfloor> + 1"
      by (simp add: round_even_def Let_def d_def)
    with 4 show ?thesis
      by (subst (2) m) simp
  qed
qed

text \<open>Rounding to a double moves a positive number by at most one part in \<open>2 ^ 53\<close>.\<close>

lemma fl_error:
  assumes "0 < x"
  shows "\<bar>fl x - x\<bar> \<le> x / 2 ^ 53"
proof -
  define u where "u = pow2 (ilog2 x - 52)"
  have u: "0 < u"
    by (simp add: u_def pow2_pos)
  have f: "fl x = of_int (round_even (x / u)) * u"
    using assms by (simp add: fl_def Let_def u_def)
  have "fl x - x = (of_int (round_even (x / u)) - x / u) * u"
    using u by (simp add: f left_diff_distrib)
  then have "\<bar>fl x - x\<bar> = \<bar>of_int (round_even (x / u)) - x / u\<bar> * \<bar>u\<bar>"
    by (simp only: abs_mult)
  also have "\<dots> = \<bar>of_int (round_even (x / u)) - x / u\<bar> * u"
    using u by (simp only: abs_of_pos)
  also have "\<dots> \<le> 1 / 2 * u"
    using u by (intro mult_right_mono round_even_error) simp
  also have "\<dots> = pow2 (ilog2 x) / 2 ^ 53"
    using pow2_diff [of "ilog2 x" 52] by (simp add: u_def pow2_def)
  also have "\<dots> \<le> x / 2 ^ 53"
    using ilog2_bounds(1) [OF assms] by (simp add: divide_right_mono)
  finally show ?thesis .
qed

subsection \<open>The percentage\<close>

lemma floor_near:
  fixes w y g :: rat and k :: int
  assumes "of_int k + g \<le> w" and "w + g \<le> of_int k + 1" and "\<bar>y - w\<bar> < g"
  shows "\<lfloor>y\<rfloor> = k"
  using assms by (intro floor_unique) linarith+

lemma off_integer:
  fixes n N :: int
  assumes "0 < n" and "\<not> n dvd N"
  shows "(of_int \<lfloor>of_int N / of_int n :: rat\<rfloor> :: rat) + 1 / of_int n \<le> of_int N / of_int n"
    and "(of_int N / of_int n :: rat) + 1 / of_int n \<le> of_int \<lfloor>of_int N / of_int n :: rat\<rfloor> + 1"
proof -
  define k where "k = \<lfloor>of_int N / of_int n :: rat\<rfloor>"
  have k: "k = N div n"
    by (simp add: k_def floor_divide_of_int_eq)
  have "N mod n \<noteq> 0"
    using assms(2) by (simp add: dvd_eq_mod_eq_0)
  moreover have "0 \<le> N mod n" "N mod n < n"
    using assms(1) by simp_all
  ultimately have r: "1 \<le> N mod n" "N mod n + 1 \<le> n"
    by linarith+
  have N: "N = k * n + N mod n"
    by (simp add: k)
  have n: "(0 :: rat) < of_int n"
    using assms(1) by simp
  have "(of_int k + 1 / of_int n) * of_int n = (of_int (k * n + 1) :: rat)"
    using n by (simp add: distrib_right)
  also have "\<dots> \<le> of_int N"
  proof -
    have "k * n + 1 \<le> N"
      using r(1) N by linarith
    then show ?thesis
      by (simp only: of_int_le_iff)
  qed
  finally have "of_int k + 1 / of_int n \<le> (of_int N / of_int n :: rat)"
    using n by (simp add: pos_le_divide_eq)
  then show "(of_int \<lfloor>of_int N / of_int n :: rat\<rfloor> :: rat) + 1 / of_int n \<le> of_int N / of_int n"
    unfolding k_def .
  have "(of_int N :: rat) + 1 = of_int (N + 1)"
    by simp
  also have "\<dots> \<le> of_int ((k + 1) * n)"
  proof -
    have "N + 1 \<le> k * n + n"
      using r(2) N by linarith
    then have "N + 1 \<le> (k + 1) * n"
      by (simp add: distrib_right)
    then show ?thesis
      by (simp only: of_int_le_iff)
  qed
  also have "\<dots> = (of_int k + 1) * of_int n"
    by simp
  finally have "(of_int N + 1) / of_int n \<le> (of_int k + 1 :: rat)"
    using n by (simp add: pos_divide_le_eq)
  then have "of_int N / of_int n + 1 / of_int n \<le> (of_int k + 1 :: rat)"
    by (simp add: add_divide_distrib)
  then show "(of_int N / of_int n :: rat) + 1 / of_int n \<le> of_int \<lfloor>of_int N / of_int n :: rat\<rfloor> + 1"
    unfolding k_def .
qed

text \<open>When one hundred times the ratio is not half way between two integers.\<close>

lemma not_half_way:
  fixes c t :: nat
  assumes "0 < t" and "\<not> (t dvd 200 * c \<and> \<not> t dvd 100 * c)"
  shows "\<not> 2 * int t dvd 200 * int c + int t"
proof
  assume "2 * int t dvd 200 * int c + int t"
  then obtain j where j: "200 * int c + int t = 2 * int t * j"
    by (auto simp: dvd_def)
  then have e: "200 * int c = int t * (2 * j - 1)"
    by (simp add: algebra_simps)
  then have "int t dvd int (200 * c)"
    by simp
  then have d: "t dvd 200 * c"
    by (simp only: int_dvd_int_iff)
  with assms(2) have "t dvd 100 * c"
    by simp
  then obtain m where "100 * c = t * m"
    by (auto simp: dvd_def)
  then have "200 * int c = int t * (2 * int m)"
    by (metis (no_types, opaque_lifting) mult.assoc mult.commute mult_2 of_nat_mult of_nat_numeral numeral_Bit0 of_nat_add add.commute)
  with e assms(1) have "2 * j - 1 = 2 * int m"
    by simp
  then show False
    by presburger
qed

text \<open>
  The percentage that the code computes is the rounded exact percentage, unless the
  exact one is half way between two integers.
\<close>

lemma percent_exact:
  fixes c t :: nat
  assumes t: "0 < t" and ct: "c \<le> t" and tb: "t \<le> 2 ^ 32"
    and nh: "\<not> (t dvd 200 * c \<and> \<not> t dvd 100 * c)"
  shows "Math_round (js_mul (js_div (of_nat c) (of_nat t)) 100) =
    round (100 * of_nat c / of_nat t :: rat)"
proof (cases "c = 0")
  case True
  then show ?thesis
    by (simp add: js_div_def js_mul_def fl_def Math_round_def round_def)
next
  case False
  define x :: rat where "x = of_nat c / of_nat t"
  have x: "0 < x" "x \<le> 1"
    using False t ct by (simp_all add: x_def)
  define q where "q = fl x"
  have q_err: "\<bar>q - x\<bar> \<le> x / 2 ^ 53"
    unfolding q_def using x(1) by (rule fl_error)
  have "x / 2 ^ 53 \<le> x / 2"
    using x(1) by (intro divide_left_mono) simp_all
  with q_err have "\<bar>q - x\<bar> \<le> x / 2"
    by (rule order_trans)
  with x have q: "0 < q" "q \<le> 2"
    by linarith+
  define y where "y = fl (q * 100)"
  have y_err: "\<bar>y - q * 100\<bar> \<le> q * 100 / 2 ^ 53"
    unfolding y_def using q(1) by (intro fl_error) simp
  have "x / 2 ^ 53 \<le> 1 / 2 ^ 53"
    using x(2) by (intro divide_right_mono) simp_all
  with q_err have "\<bar>q - x\<bar> \<le> 1 / 2 ^ 53"
    by (rule order_trans)
  then have e1: "\<bar>q * 100 - 100 * x\<bar> \<le> 100 / 2 ^ 53"
    by linarith
  have "q * 100 / 2 ^ 53 \<le> 200 / 2 ^ 53"
    using q(2) by (intro divide_right_mono) simp_all
  with y_err have e2: "\<bar>y - q * 100\<bar> \<le> 200 / 2 ^ 53"
    by (rule order_trans)
  from e1 e2 have e: "\<bar>y - 100 * x\<bar> \<le> 300 / 2 ^ 53"
    by linarith
  define N n where "N = 200 * int c + int t" and "n = 2 * int t"
  have n: "0 < n" "n \<le> 2 ^ 33"
    using t tb by (simp_all add: n_def)
  have w: "100 * x + 1 / 2 = of_int N / of_int n"
    using t by (simp add: x_def N_def n_def field_simps)
  have "\<not> n dvd N"
    unfolding n_def N_def using t nh by (rule not_half_way)
  from off_integer [OF n(1) this]
  have k: "of_int \<lfloor>100 * x + 1 / 2\<rfloor> + 1 / of_int n \<le> 100 * x + 1 / 2"
    "100 * x + 1 / 2 + 1 / of_int n \<le> of_int \<lfloor>100 * x + 1 / 2\<rfloor> + 1"
    by (simp_all only: w)
  have "(of_int n :: rat) \<le> 2 ^ 33"
    using n(2) by (metis of_int_le_iff of_int_numeral of_int_power)
  then have "1 / 2 ^ 33 \<le> 1 / (of_int n :: rat)"
    using n(1) by (intro divide_left_mono) simp_all
  moreover have "(300 :: rat) / 2 ^ 53 < 1 / 2 ^ 33"
    by simp
  ultimately have "\<bar>(y + 1 / 2) - (100 * x + 1 / 2)\<bar> < 1 / of_int n"
    using e by linarith
  from floor_near [OF k this] have "\<lfloor>y + 1 / 2\<rfloor> = \<lfloor>100 * x + 1 / 2\<rfloor>" .
  then show ?thesis
    by (simp add: Math_round_def round_def js_mul_def js_div_def y_def q_def x_def)
qed

section \<open>Properties of the sort\<close>

lemma mset_insert_by: "mset (insert_by cmp x xs) = add_mset x (mset xs)"
  by (induction xs) simp_all

lemma mset_Array_sort: "mset (Array_sort cmp xs) = mset xs"
  by (induction xs) (simp_all add: Array_sort_def mset_insert_by)

lemma mset_sortScores: "mset (sortScores pref xs) = mset xs"
  by (simp add: sortScores_def mset_Array_sort)

lemma set_insert_by: "set (insert_by cmp x xs) = insert x (set xs)"
  using mset_insert_by [of cmp x xs, THEN arg_cong, of set_mset] by simp

text \<open>
  A comparator that is total and transitive in its sign is what ECMAScript calls
  consistent; insertion keeps a list ordered by such a comparator ordered.
\<close>

lemma sorted_insert_by:
  assumes tot: "\<And>a b. cmp a b \<le> 0 \<or> cmp b a \<le> 0"
    and trans: "\<And>a b c. cmp a b \<le> 0 \<Longrightarrow> cmp b c \<le> 0 \<Longrightarrow> cmp a c \<le> 0"
    and srt: "sorted_wrt (\<lambda>a b. cmp a b \<le> 0) xs"
  shows "sorted_wrt (\<lambda>a b. cmp a b \<le> 0) (insert_by cmp x xs)"
  using srt
proof (induction xs)
  case Nil
  show ?case by simp
next
  case (Cons y ys)
  show ?case
  proof (cases "cmp x y \<le> 0")
    case True
    with Cons.prems show ?thesis
      by (auto intro: trans)
  next
    case False
    with tot [of x y] have "cmp y x \<le> 0"
      by simp
    with False Cons show ?thesis
      by (auto simp: set_insert_by)
  qed
qed

lemma sorted_Array_sort:
  assumes "\<And>a b. cmp a b \<le> 0 \<or> cmp b a \<le> 0"
    and "\<And>a b c. cmp a b \<le> 0 \<Longrightarrow> cmp b c \<le> 0 \<Longrightarrow> cmp a c \<le> 0"
  shows "sorted_wrt (\<lambda>a b. cmp a b \<le> 0) (Array_sort cmp xs)"
proof (induction xs)
  case Nil
  show ?case by (simp add: Array_sort_def)
next
  case (Cons x xs)
  have "Array_sort cmp (x # xs) = insert_by cmp x (Array_sort cmp xs)"
    by (simp add: Array_sort_def)
  with Cons assms show ?case
    by (simp add: sorted_insert_by)
qed

lemma or0_id: "or0 x = x"
  by (simp add: or0_def)

lemma cmp_newest_le: "cmp_newest a b \<le> 0 \<longleftrightarrow> ts b \<le> ts a"
  by (simp add: cmp_newest_def or0_id)

lemma cmp_oldest_le: "cmp_oldest a b \<le> 0 \<longleftrightarrow> ts a \<le> ts b"
  by (simp add: cmp_oldest_def or0_id)

lemma cmp_highest_le:
  "cmp_highest a b \<le> 0 \<longleftrightarrow> ratio b < ratio a \<or> (ratio a = ratio b \<and> ts b \<le> ts a)"
  by (auto simp: cmp_highest_def or0_id Let_def)

lemma cmp_lowest_le:
  "cmp_lowest a b \<le> 0 \<longleftrightarrow> ratio a < ratio b \<or> (ratio a = ratio b \<and> ts a \<le> ts b)"
  by (auto simp: cmp_lowest_def or0_id Let_def)

lemma sorted_newest: "sorted_wrt (\<lambda>a b. ts b \<le> ts a) (Array_sort cmp_newest xs)"
proof -
  have "sorted_wrt (\<lambda>a b. cmp_newest a b \<le> 0) (Array_sort cmp_newest xs)"
    by (rule sorted_Array_sort) (auto simp: cmp_newest_le)
  then show ?thesis
    by (simp add: cmp_newest_le)
qed

lemma sorted_oldest: "sorted_wrt (\<lambda>a b. ts a \<le> ts b) (Array_sort cmp_oldest xs)"
proof -
  have "sorted_wrt (\<lambda>a b. cmp_oldest a b \<le> 0) (Array_sort cmp_oldest xs)"
    by (rule sorted_Array_sort) (auto simp: cmp_oldest_le)
  then show ?thesis
    by (simp add: cmp_oldest_le)
qed

lemma sorted_highest:
  "sorted_wrt (\<lambda>a b. ratio b < ratio a \<or> (ratio a = ratio b \<and> ts b \<le> ts a))
     (Array_sort cmp_highest xs)"
proof -
  have "sorted_wrt (\<lambda>a b. cmp_highest a b \<le> 0) (Array_sort cmp_highest xs)"
    by (rule sorted_Array_sort) (auto simp: cmp_highest_le)
  then show ?thesis
    by (simp add: cmp_highest_le)
qed

lemma sorted_lowest:
  "sorted_wrt (\<lambda>a b. ratio a < ratio b \<or> (ratio a = ratio b \<and> ts a \<le> ts b))
     (Array_sort cmp_lowest xs)"
proof -
  have "sorted_wrt (\<lambda>a b. cmp_lowest a b \<le> 0) (Array_sort cmp_lowest xs)"
    by (rule sorted_Array_sort) (auto simp: cmp_lowest_le)
  then show ?thesis
    by (simp add: cmp_lowest_le)
qed

section \<open>Properties of the ratio\<close>

lemma fl_0: "fl 0 = 0"
  by (simp add: fl_def)

lemma ratio_fl: "ratio r = fl (spec_ratio r)"
  by (simp add: ratio_def spec_ratio_def js_div_def fl_0)

lemma spec_ratio_bounds: "small r \<Longrightarrow> 0 \<le> spec_ratio r \<and> spec_ratio r \<le> 1"
  by (simp add: spec_ratio_def small_def)

lemma ratio_near:
  assumes "small r"
  shows "\<bar>ratio r - spec_ratio r\<bar> \<le> 1 / 2 ^ 53"
proof (cases "spec_ratio r = 0")
  case True
  then show ?thesis
    by (simp add: ratio_fl fl_0)
next
  case False
  with spec_ratio_bounds [OF assms] have p: "0 < spec_ratio r" "spec_ratio r \<le> 1"
    by simp_all
  from fl_error [OF p(1)] have "\<bar>ratio r - spec_ratio r\<bar> \<le> spec_ratio r / 2 ^ 53"
    by (simp add: ratio_fl)
  also have "\<dots> \<le> 1 / 2 ^ 53"
    using p(2) by (intro divide_right_mono) simp_all
  finally show ?thesis .
qed

text \<open>Two different quotients with denominators up to \<open>2 ^ 25\<close> are \<open>2 ^ -50\<close> apart.\<close>

lemma fraction_gap:
  fixes a b c d :: nat
  assumes "0 < b" and "b \<le> 2 ^ 25" and "0 < d" and "d \<le> 2 ^ 25"
    and "(of_nat a / of_nat b :: rat) < of_nat c / of_nat d"
  shows "1 / 2 ^ 50 \<le> (of_nat c / of_nat d :: rat) - of_nat a / of_nat b"
proof -
  have "(of_nat a :: rat) * of_nat d < of_nat c * of_nat b"
    using assms(1,3,5) by (simp add: divide_less_eq pos_less_divide_eq mult.commute)
  then have "a * d < c * b"
    by (metis of_nat_less_iff of_nat_mult)
  then have "a * d + 1 \<le> c * b"
    by simp
  then have n: "(of_nat a :: rat) * of_nat d + 1 \<le> of_nat c * of_nat b"
    by (metis of_nat_le_iff of_nat_mult of_nat_add of_nat_1)
  have "b * d \<le> 2 ^ 25 * 2 ^ 25"
    using assms(2,4) by (intro mult_mono) simp_all
  then have "(of_nat (b * d) :: rat) \<le> of_nat (2 ^ 25 * 2 ^ 25)"
    by (simp only: of_nat_le_iff)
  then have bd: "(of_nat b :: rat) * of_nat d \<le> 2 ^ 50"
    by simp
  have pos: "(0 :: rat) < of_nat b * of_nat d"
    using assms(1,3) by simp
  have "(of_nat c / of_nat d :: rat) - of_nat a / of_nat b =
      (of_nat c * of_nat b - of_nat a * of_nat d) / (of_nat b * of_nat d)"
    using assms(1,3) by (simp add: field_simps)
  moreover have "1 / (of_nat b * of_nat d) \<le>
      ((of_nat c :: rat) * of_nat b - of_nat a * of_nat d) / (of_nat b * of_nat d)"
    using n pos by (intro divide_right_mono) simp_all
  moreover have "(1 :: rat) / 2 ^ 50 \<le> 1 / (of_nat b * of_nat d)"
    using bd pos by (intro divide_left_mono) simp_all
  ultimately show ?thesis
    by linarith
qed

lemma spec_ratio_fraction:
  assumes "small r"
  obtains c d :: nat where "spec_ratio r = of_nat c / of_nat d" "0 < d" "d \<le> 2 ^ 25"
proof (cases "total r = 0")
  case True
  then have "spec_ratio r = of_nat 0 / of_nat 1"
    by (simp add: spec_ratio_def)
  then show ?thesis
    by (rule that) simp_all
next
  case False
  then have e: "spec_ratio r = of_nat (correct r) / of_nat (total r)"
    by (simp add: spec_ratio_def)
  from False assms have "0 < total r" "total r \<le> 2 ^ 25"
    by (simp_all add: small_def)
  with e show ?thesis
    by (rule that)
qed

lemma ratio_strict:
  assumes "small a" and "small b" and "spec_ratio a < spec_ratio b"
  shows "ratio a < ratio b"
proof -
  from spec_ratio_fraction [OF assms(1)] obtain c1 d1 :: nat
    where a: "spec_ratio a = of_nat c1 / of_nat d1" "0 < d1" "d1 \<le> 2 ^ 25" .
  from spec_ratio_fraction [OF assms(2)] obtain c2 d2 :: nat
    where b: "spec_ratio b = of_nat c2 / of_nat d2" "0 < d2" "d2 \<le> 2 ^ 25" .
  from fraction_gap [OF a(2,3) b(2,3)] assms(3)
  have "1 / 2 ^ 50 \<le> spec_ratio b - spec_ratio a"
    by (simp add: a(1) b(1))
  moreover have "(1 :: rat) / 2 ^ 53 + 1 / 2 ^ 53 < 1 / 2 ^ 50"
    by simp
  ultimately show ?thesis
    using ratio_near [OF assms(1)] ratio_near [OF assms(2)] by linarith
qed

lemma ratio_less_iff:
  assumes "small a" and "small b"
  shows "ratio a < ratio b \<longleftrightarrow> spec_ratio a < spec_ratio b"
proof
  assume "spec_ratio a < spec_ratio b"
  with assms show "ratio a < ratio b"
    by (rule ratio_strict)
next
  assume l: "ratio a < ratio b"
  show "spec_ratio a < spec_ratio b"
  proof (rule ccontr)
    assume "\<not> spec_ratio a < spec_ratio b"
    then consider "spec_ratio a = spec_ratio b" | "spec_ratio b < spec_ratio a"
      by fastforce
    then show False
    proof cases
      case 1
      with l show False
        by (simp add: ratio_fl)
    next
      case 2
      from ratio_strict [OF assms(2,1) this] l show False
        by simp
    qed
  qed
qed

lemma ratio_eq_iff:
  assumes "small a" and "small b"
  shows "ratio a = ratio b \<longleftrightarrow> spec_ratio a = spec_ratio b"
  using ratio_less_iff [OF assms] ratio_less_iff [OF assms(2,1)]
  by (metis less_irrefl linorder_neqE_linordered_idom ratio_fl)

text \<open>On small records the order by the double ratio is the order by the exact ratio.\<close>

lemma sorted_highest_spec:
  assumes "\<forall>r \<in> set xs. small r"
  shows "sorted_wrt (\<lambda>a b. spec_ratio b < spec_ratio a \<or> (spec_ratio a = spec_ratio b \<and> ts b \<le> ts a))
    (Array_sort cmp_highest xs)"
proof (rule sorted_wrt_mono_rel [OF _ sorted_highest])
  fix a b
  assume "a \<in> set (Array_sort cmp_highest xs)" "b \<in> set (Array_sort cmp_highest xs)"
  then have "small a" "small b"
    using assms mset_Array_sort [of cmp_highest xs, THEN mset_eq_setD] by simp_all
  then show "ratio b < ratio a \<or> (ratio a = ratio b \<and> ts b \<le> ts a) \<Longrightarrow>
      spec_ratio b < spec_ratio a \<or> (spec_ratio a = spec_ratio b \<and> ts b \<le> ts a)"
    by (simp add: ratio_less_iff ratio_eq_iff)
qed

lemma sorted_lowest_spec:
  assumes "\<forall>r \<in> set xs. small r"
  shows "sorted_wrt (\<lambda>a b. spec_ratio a < spec_ratio b \<or> (spec_ratio a = spec_ratio b \<and> ts a \<le> ts b))
    (Array_sort cmp_lowest xs)"
proof (rule sorted_wrt_mono_rel [OF _ sorted_lowest])
  fix a b
  assume "a \<in> set (Array_sort cmp_lowest xs)" "b \<in> set (Array_sort cmp_lowest xs)"
  then have "small a" "small b"
    using assms mset_Array_sort [of cmp_lowest xs, THEN mset_eq_setD] by simp_all
  then show "ratio a < ratio b \<or> (ratio a = ratio b \<and> ts a \<le> ts b) \<Longrightarrow>
      spec_ratio a < spec_ratio b \<or> (spec_ratio a = spec_ratio b \<and> ts a \<le> ts b)"
    by (simp add: ratio_less_iff ratio_eq_iff)
qed

text \<open>
  Some bound on the totals is needed: the fractions \<open>(2 ^ 27 - 1) / 2 ^ 27\<close> and
  \<open>2 ^ 27 / (2 ^ 27 + 1)\<close> differ and are the same double, so that the code orders two
  such records by their timestamps.
\<close>

lemma ratio_tie:
  "ratio \<lparr>name = a, correct = 2 ^ 27 - 1, total = 2 ^ 27, ts = s\<rparr> =
     ratio \<lparr>name = b, correct = 2 ^ 27, total = 2 ^ 27 + 1, ts = t\<rparr> \<and>
   spec_ratio \<lparr>name = a, correct = 2 ^ 27 - 1, total = 2 ^ 27, ts = s\<rparr> <
     spec_ratio \<lparr>name = b, correct = 2 ^ 27, total = 2 ^ 27 + 1, ts = t\<rparr>"
proof -
  have "js_div 134217727 134217728 = js_div 134217728 134217729"
    by code_simp
  then show ?thesis
    by (simp add: ratio_def spec_ratio_def field_simps)
qed

text \<open>
  Both records have the percentage 100, and under \<open>highest\<close> the one saved later comes
  first.
\<close>

lemma percent_tie:
  "percent \<lparr>name = a, correct = 134217727, total = 134217728, ts = s\<rparr> = 100"
  "percent \<lparr>name = b, correct = 134217728, total = 134217729, ts = t\<rparr> = 100"
proof -
  have "Math_round (js_mul (js_div 134217727 134217728) 100) = 100"
    "Math_round (js_mul (js_div 134217728 134217729) 100) = 100"
    by code_simp+
  then show "percent \<lparr>name = a, correct = 134217727, total = 134217728, ts = s\<rparr> = 100"
    "percent \<lparr>name = b, correct = 134217728, total = 134217729, ts = t\<rparr> = 100"
    by (simp_all add: percent_def ratio_def)
qed

lemma sort_highest_tie:
  assumes "t < s"
  shows "sortScores ''highest''
     [\<lparr>name = b, correct = 134217728, total = 134217729, ts = t\<rparr>,
      \<lparr>name = a, correct = 134217727, total = 134217728, ts = s\<rparr>] =
     [\<lparr>name = a, correct = 134217727, total = 134217728, ts = s\<rparr>,
      \<lparr>name = b, correct = 134217728, total = 134217729, ts = t\<rparr>]"
proof -
  have "ratio \<lparr>name = a, correct = 134217727, total = 134217728, ts = s\<rparr> =
      ratio \<lparr>name = b, correct = 134217728, total = 134217729, ts = t\<rparr>"
    using ratio_tie [of a s b t] by simp
  with assms show ?thesis
    by (simp add: sortScores_def Array_sort_def cmp_highest_def or0_def)
qed

section \<open>Properties of JSON text\<close>

declare JSON_stringify.simps(6) [simp del]

lemma opt_cons_simps [simp]:
  "opt_cons (Some a) (Some xs) = Some (a # xs)" "opt_cons None ys = None" "opt_cons x None = None"
  by (simp_all add: opt_cons_def split: option.splits)

lemma opt_pair_simps [simp]:
  "opt_pair (Some a) (Some b) = Some (a, b)" "opt_pair None y = None" "opt_pair x None = None"
  by (simp_all add: opt_pair_def split: option.splits)

subsection \<open>Decimal numbers survive the round trip\<close>

lemma below_10: "d < 10 \<Longrightarrow> d \<in> {0, 1, 2, 3, 4, 5, 6, 7, 8, 9 :: nat}"
  by auto

lemma below_16: "d < 16 \<Longrightarrow> d \<in> {0, 1, 2, 3, 4, 5, 6, 7, 8, 9, 10, 11, 12, 13, 14, 15 :: nat}"
  by simp arith

lemma digit_char_props:
  assumes "d < 10"
  shows "is_digit (digit_char d)" and "digit_val (digit_char d) = d"
    and "d \<noteq> 0 \<Longrightarrow> digit_char d \<noteq> CHR ''0''"
  using below_10 [OF assms] by (auto simp: is_digit_def digit_val_def digit_char_def)

lemma hex_val_hex_char: "d < 16 \<Longrightarrow> hex_val (hex_char d) = Some d"
  using below_16 [of d] by (auto simp: hex_val_def hex_char_def)

lemma show_nat_digits: "list_all is_digit (show_nat n)"
  by (induction n rule: show_nat.induct) (subst show_nat.simps, simp add: digit_char_props)

lemma show_nat_nonempty: "show_nat n \<noteq> []"
  by (subst show_nat.simps) simp

lemma read_nat_snoc: "read_nat (ds @ [c]) = 10 * read_nat ds + digit_val c"
  by (simp add: read_nat_def)

lemma read_show_nat: "read_nat (show_nat n) = n"
proof (induction n rule: show_nat.induct)
  case (1 n)
  show ?case
  proof (cases "n < 10")
    case True
    then show ?thesis
      by (subst show_nat.simps) (simp add: read_nat_def digit_char_props)
  next
    case False
    with 1 show ?thesis
      by (subst show_nat.simps) (simp add: read_nat_snoc digit_char_props)
  qed
qed

lemma show_nat_hd: "0 < n \<Longrightarrow> hd (show_nat n) \<noteq> CHR ''0''"
proof (induction n rule: show_nat.induct)
  case (1 n)
  show ?case
  proof (cases "n < 10")
    case True
    with 1(2) show ?thesis
      by (subst show_nat.simps) (simp add: digit_char_props)
  next
    case False
    then have "0 < n div 10" by simp
    with 1 False show ?thesis
      by (subst show_nat.simps) (simp add: show_nat_nonempty)
  qed
qed

lemma show_nat_0: "show_nat 0 = ''0''"
  by (simp add: show_nat.simps digit_char_def)

lemma show_nat_no_leading_zero: "\<not> (hd (show_nat n) = CHR ''0'' \<and> 1 < length (show_nat n))"
  by (cases "n = 0") (auto simp: show_nat_0 dest: show_nat_hd)

lemma ends_value_digit: "ends_value rest \<Longrightarrow> takeWhile is_digit rest = [] \<and> dropWhile is_digit rest = rest"
  by (cases rest) (auto simp: ends_value_def is_digit_def)

lemma take_digits:
  assumes "ends_value rest"
  shows "takeWhile is_digit (show_nat n @ rest) = show_nat n"
    and "dropWhile is_digit (show_nat n @ rest) = rest"
  using show_nat_digits [of n] ends_value_digit [OF assms]
  by (simp_all add: list_all_iff takeWhile_append2 dropWhile_append2)

lemma show_nat_hd_digit: "is_digit (hd (show_nat n))"
  using show_nat_digits [of n] show_nat_nonempty [of n]
  by (cases "show_nat n") simp_all

lemma ends_value_not_frac:
  assumes "ends_value rest"
  shows "lex_frac rest = Some (False, rest)" and "lex_exp rest = Some (False, rest)"
  using assms by (auto simp: ends_value_def lex_frac_def lex_exp_def)

lemma lex_number_show_nat:
  assumes "n \<le> 2 ^ 53" and "ends_value rest"
  shows "lex_number (show_nat n @ rest) = Inr (Some (int n), rest)"
proof -
  have "hd (show_nat n @ rest) \<noteq> CHR ''-''"
    using show_nat_hd_digit [of n] show_nat_nonempty [of n]
    by (auto simp: is_digit_def)
  moreover have "\<not> 2 ^ 53 < n"
    using assms(1) by simp
  ultimately show ?thesis
    using show_nat_no_leading_zero [of n] ends_value_not_frac [OF assms(2)]
    by (simp add: lex_number_def Let_def take_digits [OF assms(2)] read_show_nat show_nat_nonempty)
qed

lemma lex_number_minus:
  assumes "0 < n" and "n \<le> 2 ^ 53" and "ends_value rest"
  shows "lex_number (CHR ''-'' # show_nat n @ rest) = Inr (Some (- int n), rest)"
proof -
  have "\<not> 2 ^ 53 < n" "n \<noteq> 0"
    using assms(1,2) by simp_all
  then show ?thesis
    using show_nat_no_leading_zero [of n] ends_value_not_frac [OF assms(3)]
    by (simp add: lex_number_def Let_def take_digits [OF assms(3)] read_show_nat show_nat_nonempty)
qed

lemma lex_number_show_int:
  assumes "\<bar>i\<bar> \<le> 2 ^ 53" and "ends_value rest"
  shows "lex_number (show_int i @ rest) = Inr (Some i, rest)"
proof (cases "i < 0")
  case True
  then have "0 < nat (- i)" "nat (- i) \<le> 2 ^ 53"
    using assms(1) by simp_all
  from lex_number_minus [OF this assms(2)] True show ?thesis
    by (simp add: show_int_def)
next
  case False
  then have "nat i \<le> 2 ^ 53"
    using assms(1) by simp
  from lex_number_show_nat [OF this assms(2)] False show ?thesis
    by (simp add: show_int_def)
qed

subsection \<open>String literals survive the round trip\<close>

lemma ctl_div_mod:
  assumes "(of_char c :: nat) < 32"
  shows "(of_char c :: nat) div 16 < 16" and "(of_char c :: nat) mod 16 < 16"
proof -
  have "(of_char c :: nat) div 16 < 2"
    using assms by (simp add: div_less_iff_less_mult)
  then show "(of_char c :: nat) div 16 < 16"
    by simp
  show "(of_char c :: nat) mod 16 < 16"
    by simp
qed

lemma lex_string_u00:
  assumes "hex_val h1 = Some a" and "hex_val h2 = Some b"
  shows "lex_string ([CHR 0x5C, CHR ''u'', CHR ''0'', CHR ''0'', h1, h2] @ t) =
    lex_cons (Some (char_of (16 * a + b))) (lex_string t)"
proof -
  have "hex_val (CHR ''0'') = Some 0"
    by (simp add: hex_val_def)
  with assms show ?thesis
    by simp
qed

lemma lex_string_escape_char: "lex_string (escape_char c @ t) = lex_cons (Some c) (lex_string t)"
proof -
  consider (esc) "c \<in> {CHR 0x22, CHR 0x5C, CHR 0x08, CHR 0x0C, CHR 0x0A, CHR 0x0D, CHR 0x09}"
    | (ctl) "c \<notin> {CHR 0x22, CHR 0x5C, CHR 0x08, CHR 0x0C, CHR 0x0A, CHR 0x0D, CHR 0x09}"
         "(of_char c :: nat) < 32"
    | (raw) "c \<notin> {CHR 0x22, CHR 0x5C, CHR 0x08, CHR 0x0C, CHR 0x0A, CHR 0x0D, CHR 0x09}"
         "\<not> (of_char c :: nat) < 32"
    by blast
  then show ?thesis
  proof cases
    case esc
    then show ?thesis
      by (elim insertE emptyE) (simp_all add: escape_char_def unescape_def)
  next
    case ctl
    then have e: "escape_char c = [CHR 0x5C, CHR ''u'', CHR ''0'', CHR ''0'',
              hex_char (of_char c div 16), hex_char (of_char c mod 16)]"
      by (simp add: escape_char_def)
    have "char_of (16 * ((of_char c :: nat) div 16) + (of_char c :: nat) mod 16) = c"
      by simp
    then show ?thesis
      unfolding e
      using lex_string_u00 [OF hex_val_hex_char hex_val_hex_char, OF ctl_div_mod [OF ctl(2)], of t]
      by simp
  next
    case raw
    then have "escape_char c = [c]"
      by (simp add: escape_char_def)
    with raw show ?thesis
      by simp
  qed
qed

lemma lex_string_quote:
  "lex_string (concat (map escape_char s) @ CHR 0x22 # rest) = Inr (Some s, rest)"
  by (induction s) (simp_all add: lex_string_escape_char lex_cons_def)

subsection \<open>Values survive the round trip\<close>

lemma skip_ws_Cons: "\<not> is_ws c \<Longrightarrow> skip_ws (c # cs) = c # cs"
  by (simp add: skip_ws_def)

lemma show_int_hd: "\<exists>c cs. show_int i = c # cs \<and> (c = CHR ''-'' \<or> is_digit c)"
proof (cases "i < 0")
  case True
  then show ?thesis by (simp add: show_int_def)
next
  case False
  then show ?thesis
    using show_nat_hd_digit [of "nat i"] show_nat_nonempty [of "nat i"]
    by (cases "show_nat (nat i)") (simp_all add: show_int_def)
qed

lemma stringify_hd: "\<exists>c cs. JSON_stringify v = c # cs \<and> opens_value c"
proof (cases v)
  case (JNum i)
  from show_int_hd [of i] obtain c cs where "show_int i = c # cs" "c = CHR ''-'' \<or> is_digit c"
    by blast
  with JNum show ?thesis
    by (auto simp: opens_value_def is_ws_def is_digit_def)
qed (simp_all add: opens_value_def is_ws_def quote_def JSON_stringify.simps(6))

lemma parse_value_number:
  assumes "s = c # cs" and "c = CHR ''-'' \<or> is_digit c"
  shows "parse_value (Suc m) s =
    (case lex_number s of Inl e \<Rightarrow> Inl e | Inr (i, rest) \<Rightarrow> Inr (map_option JNum i, rest))"
proof -
  have "\<not> is_ws c" "c \<noteq> CHR ''[''" "c \<noteq> CHR ''{''" "c \<noteq> CHR 0x22"
    using assms(2) by (auto simp: is_ws_def is_digit_def)
  with assms show ?thesis
    by (simp add: skip_ws_Cons)
qed

lemma skip_ws_stringify: "skip_ws (JSON_stringify v @ t) = JSON_stringify v @ t"
  using stringify_hd [of v] by (auto simp: opens_value_def skip_ws_Cons)

lemma ends_value_simps:
  "ends_value []" "ends_value (CHR '','' # t)" "ends_value (CHR '']'' # t)" "ends_value (CHR ''}'' # t)"
  by (simp_all add: ends_value_def)

lemma commas_Cons_Cons: "commas (x # y # zs) @ t = x @ CHR '','' # commas (y # zs) @ t"
  by simp

lemma reads_backD:
  "reads_back v \<Longrightarrow> ends_value rest \<Longrightarrow> length (JSON_stringify v) \<le> n \<Longrightarrow>
     parse_value n (JSON_stringify v @ rest) = Inr (Some v, rest)"
  by (simp add: reads_back_def)

lemma parse_elems_stringify:
  assumes "vs \<noteq> []" and "\<forall>v \<in> set vs. reads_back v"
    and "length (commas (map JSON_stringify vs)) < m"
  shows "parse_elems m (commas (map JSON_stringify vs) @ CHR '']'' # rest) = Inr (Some vs, rest)"
  using assms
proof (induction vs arbitrary: m)
  case Nil
  then show ?case by simp
next
  case (Cons v vs)
  from Cons.prems(3) obtain k where m: "m = Suc k"
    by (cases m) simp_all
  have rb: "reads_back v"
    using Cons.prems(2) by simp
  show ?case
  proof (cases vs)
    case Nil
    have "length (JSON_stringify v) \<le> k"
      using Cons.prems(3) m Nil by simp
    from reads_backD [OF rb ends_value_simps(3) this, of rest] Nil m show ?thesis
      by (simp add: skip_ws_Cons is_ws_def)
  next
    case (Cons w ws)
    have len: "length (JSON_stringify v) \<le> k" "length (commas (map JSON_stringify vs)) < k"
      using Cons.prems(3) m Cons by simp_all
    have "parse_elems k (commas (map JSON_stringify vs) @ CHR '']'' # rest) = Inr (Some vs, rest)"
      using Cons.IH [OF _ _ len(2)] Cons.prems(2) Cons by simp
    with reads_backD [OF rb ends_value_simps(2) len(1), of "commas (map JSON_stringify vs) @ CHR '']'' # rest"]
      Cons m show ?thesis
      by (simp add: skip_ws_Cons is_ws_def)
  qed
qed

lemma parse_members_step:
  assumes "reads_back v" and "length (JSON_stringify v) \<le> k" and "ends_value t"
  shows "parse_members (Suc k) (member_text (key, v) @ t) =
    (case skip_ws t of
       [] \<Rightarrow> Inl SyntaxError
     | c # s5 \<Rightarrow>
         if c = CHR '','' then
           (case parse_members k s5 of
              Inl e \<Rightarrow> Inl e
            | Inr (kvs, rest) \<Rightarrow> Inr (opt_cons (opt_pair (Some key) (Some v)) kvs, rest))
         else if c = CHR ''}'' then Inr (opt_cons (opt_pair (Some key) (Some v)) (Some []), s5)
         else Inl SyntaxError)"
proof -
  have "member_text (key, v) @ t =
      CHR 0x22 # (concat (map escape_char key) @ CHR 0x22 # (CHR '':'' # JSON_stringify v @ t))"
    by (simp add: member_text_def quote_def)
  then show ?thesis
    using reads_backD [OF assms(1,3,2)]
    by (simp add: skip_ws_Cons is_ws_def lex_string_quote)
qed

lemma parse_members_stringify:
  assumes "kvs \<noteq> []" and "\<forall>kv \<in> set kvs. reads_back (snd kv)"
    and "length (commas (map member_text kvs)) < m"
  shows "parse_members m (commas (map member_text kvs) @ CHR ''}'' # rest) = Inr (Some kvs, rest)"
  using assms
proof (induction kvs arbitrary: m)
  case Nil
  then show ?case by simp
next
  case (Cons kv kvs)
  obtain key v where kv: "kv = (key, v)"
    by (cases kv)
  from Cons.prems(3) obtain k where m: "m = Suc k"
    by (cases m) simp_all
  have rb: "reads_back v"
    using Cons.prems(2) kv by simp
  have lv: "length (JSON_stringify v) \<le> length (member_text kv)"
    by (simp add: member_text_def kv)
  show ?case
  proof (cases kvs)
    case Nil
    have "length (JSON_stringify v) \<le> k"
      using Cons.prems(3) m Nil lv by simp
    from parse_members_step [OF rb this ends_value_simps(4), of key rest] Nil m kv show ?thesis
      by (simp add: skip_ws_Cons is_ws_def)
  next
    case (Cons w ws)
    have len: "length (JSON_stringify v) \<le> k" "length (commas (map member_text kvs)) < k"
      using Cons.prems(3) m Cons lv by simp_all
    have "parse_members k (commas (map member_text kvs) @ CHR ''}'' # rest) = Inr (Some kvs, rest)"
      using Cons.IH [OF _ _ len(2)] Cons.prems(2) Cons by simp
    with parse_members_step [OF rb len(1) ends_value_simps(2), of key "commas (map member_text kvs) @ CHR ''}'' # rest"]
      Cons m kv show ?thesis
      by (simp add: skip_ws_Cons is_ws_def)
  qed
qed

lemma stringify_obj [simp]:
  "JSON_stringify (JObj kvs) = CHR ''{'' # commas (map member_text kvs) @ ''}''"
proof -
  have "(\<lambda>(k, v). quote k @ CHR '':'' # JSON_stringify v) = member_text"
    by (auto simp: member_text_def)
  then show ?thesis
    by (simp add: JSON_stringify.simps(6))
qed

lemma commas_hd:
  assumes "xs \<noteq> []" and "\<forall>x \<in> set xs. \<exists>c cs. x = c # cs \<and> opens_value c"
  shows "\<exists>c cs. commas xs @ t = c # cs \<and> opens_value c"
proof (cases xs)
  case Nil
  with assms show ?thesis by simp
next
  case (Cons x ys)
  with assms(2) obtain c cs where "x = c # cs" "opens_value c"
    by auto
  with Cons show ?thesis
    by (cases ys) auto
qed

lemma member_text_hd: "\<exists>c cs. member_text kv = c # cs \<and> opens_value c"
  by (simp add: member_text_def quote_def opens_value_def is_ws_def)

lemma reads_back_all: "json_ok v \<Longrightarrow> reads_back v"
proof (induction v)
  case JNull
  show ?case
    unfolding reads_back_def
  proof (intro allI impI)
    fix n rest
    assume "length (JSON_stringify JNull) \<le> n"
    then obtain k where "n = Suc k"
      by (cases n) simp_all
    then show "parse_value n (JSON_stringify JNull @ rest) = Inr (Some JNull, rest)"
      by (simp add: skip_ws_Cons is_ws_def is_digit_def)
  qed
next
  case (JBool b)
  show ?case
    unfolding reads_back_def
  proof (intro allI impI)
    fix n rest
    assume "length (JSON_stringify (JBool b)) \<le> n"
    then obtain k where "n = Suc k"
      by (cases n; cases b) simp_all
    then show "parse_value n (JSON_stringify (JBool b) @ rest) = Inr (Some (JBool b), rest)"
      by (simp add: skip_ws_Cons is_ws_def is_digit_def)
  qed
next
  case (JNum i)
  show ?case
    unfolding reads_back_def
  proof (intro allI impI)
    fix n rest
    assume e: "ends_value rest" and "length (JSON_stringify (JNum i)) \<le> n"
    then obtain k where n: "n = Suc k"
      using show_int_hd [of i] by (cases n) auto
    from show_int_hd [of i] obtain c cs where c: "show_int i = c # cs" "c = CHR ''-'' \<or> is_digit c"
      by blast
    then have "show_int i @ rest = c # (cs @ rest)"
      by simp
    from parse_value_number [OF this c(2), of k] lex_number_show_int [OF _ e, of i] JNum n
    show "parse_value n (JSON_stringify (JNum i) @ rest) = Inr (Some (JNum i), rest)"
      by simp
  qed
next
  case (JStr s)
  show ?case
    unfolding reads_back_def
  proof (intro allI impI)
    fix n rest
    assume "length (JSON_stringify (JStr s)) \<le> n"
    then obtain k where "n = Suc k"
      by (cases n) (simp_all add: quote_def)
    then show "parse_value n (JSON_stringify (JStr s) @ rest) = Inr (Some (JStr s), rest)"
      by (simp add: quote_def skip_ws_Cons is_ws_def lex_string_quote)
  qed
next
  case (JArr vs)
  then have rb: "\<forall>v \<in> set vs. reads_back v"
    by (simp add: list_all_iff)
  show ?case
    unfolding reads_back_def
  proof (intro allI impI)
    fix n rest
    assume len: "length (JSON_stringify (JArr vs)) \<le> n"
    then obtain k where n: "n = Suc k"
      by (cases n) simp_all
    show "parse_value n (JSON_stringify (JArr vs) @ rest) = Inr (Some (JArr vs), rest)"
    proof (cases "vs = []")
      case True
      with n show ?thesis
        by (simp add: skip_ws_Cons is_ws_def)
    next
      case False
      from commas_hd [of "map JSON_stringify vs" "CHR '']'' # rest"] False stringify_hd
      obtain c cs where c: "commas (map JSON_stringify vs) @ CHR '']'' # rest = c # cs" "opens_value c"
        by auto
      have "length (commas (map JSON_stringify vs)) < k"
        using len n by simp
      from parse_elems_stringify [OF False rb this, of rest] c n show ?thesis
        by (simp add: skip_ws_Cons is_ws_def opens_value_def)
    qed
  qed
next
  case (JObj kvs)
  then have rb: "\<forall>kv \<in> set kvs. reads_back (snd kv)"
    by (auto simp: list_all_iff snds.simps)
  have mk: "make_object kvs = Some (JObj kvs)"
    using JObj.prems by (simp add: make_object_def)
  show ?case
    unfolding reads_back_def
  proof (intro allI impI)
    fix n rest
    assume len: "length (JSON_stringify (JObj kvs)) \<le> n"
    then obtain k where n: "n = Suc k"
      by (cases n) simp_all
    show "parse_value n (JSON_stringify (JObj kvs) @ rest) = Inr (Some (JObj kvs), rest)"
    proof (cases "kvs = []")
      case True
      with n show ?thesis
        by (simp add: skip_ws_Cons is_ws_def)
    next
      case False
      from commas_hd [of "map member_text kvs" "CHR ''}'' # rest"] False member_text_hd
      obtain c cs where c: "commas (map member_text kvs) @ CHR ''}'' # rest = c # cs" "opens_value c"
        by auto
      have "length (commas (map member_text kvs)) < k"
        using len n by simp
      from parse_members_stringify [OF False rb this, of rest] c n mk show ?thesis
        by (simp add: skip_ws_Cons is_ws_def opens_value_def)
    qed
  qed
qed

lemma JSON_parse_stringify:
  assumes "json_ok v"
  shows "JSON_parse (JSON_stringify v) = Inr v"
proof -
  let ?s = "JSON_stringify v"
  have "reads_back v"
    using assms by (rule reads_back_all)
  from reads_backD [OF this ends_value_simps(1), of "Suc (length ?s + length ?s)"]
  have "parse_value (Suc (length ?s + length ?s)) ?s = Inr (Some v, [])"
    by simp
  then show ?thesis
    by (simp add: JSON_parse_def skip_ws_def del: parse_value.simps)
qed

subsection \<open>The parser returns values of the model\<close>

lemma opt_cons_eq_Some [simp]:
  "(opt_cons x xs = Some ys) = (\<exists>a as. x = Some a \<and> xs = Some as \<and> ys = a # as)"
  by (cases x; cases xs) auto

lemma opt_pair_eq_Some [simp]:
  "(opt_pair x y = Some p) = (\<exists>a b. x = Some a \<and> y = Some b \<and> p = (a, b))"
  by (cases x; cases y) auto

lemma lex_number_range: "lex_number s = Inr (Some i, rest) \<Longrightarrow> \<bar>i\<bar> \<le> 2 ^ 53"
  by (auto simp: lex_number_def Let_def split: if_splits option.splits)

lemma make_object_ok:
  "make_object kvs = Some obj \<Longrightarrow> list_all (\<lambda>kv. json_ok (snd kv)) kvs \<Longrightarrow> json_ok obj"
  by (auto simp: make_object_def split: if_splits)

lemma parse_value_ok_step:
  assumes elems: "\<And>s vs rest. parse_elems n s = Inr (Some vs, rest) \<Longrightarrow> list_all json_ok vs"
    and members: "\<And>s kvs rest. parse_members n s = Inr (Some kvs, rest) \<Longrightarrow>
      list_all (\<lambda>kv. json_ok (snd kv)) kvs"
    and "parse_value (Suc n) s = Inr (Some v, rest)"
  shows "json_ok v"
  using assms(3)
  apply (cases "skip_ws s")
   apply (auto split: if_splits sum.splits simp: bind_eq_Some_conv dest: elems lex_number_range)
   apply (erule make_object_ok, erule members)+
  done

lemma parse_elems_ok_step:
  assumes val: "\<And>s v rest. parse_value n s = Inr (Some v, rest) \<Longrightarrow> json_ok v"
    and elems: "\<And>s vs rest. parse_elems n s = Inr (Some vs, rest) \<Longrightarrow> list_all json_ok vs"
    and "parse_elems (Suc n) s = Inr (Some vs, rest)"
  shows "list_all json_ok vs"
  using assms(3)
  apply (auto split: if_splits sum.splits list.splits)
    apply (erule val | erule elems)+
  done

lemma parse_members_ok_step:
  assumes val: "\<And>s v rest. parse_value n s = Inr (Some v, rest) \<Longrightarrow> json_ok v"
    and members: "\<And>s kvs rest. parse_members n s = Inr (Some kvs, rest) \<Longrightarrow>
      list_all (\<lambda>kv. json_ok (snd kv)) kvs"
    and "parse_members (Suc n) s = Inr (Some kvs, rest)"
  shows "list_all (\<lambda>kv. json_ok (snd kv)) kvs"
  using assms(3)
  apply (auto split: if_splits sum.splits list.splits)
    apply (erule val | erule members)+
  done

lemma parse_ok:
  "(\<forall>s v rest. parse_value n s = Inr (Some v, rest) \<longrightarrow> json_ok v) \<and>
   (\<forall>s vs rest. parse_elems n s = Inr (Some vs, rest) \<longrightarrow> list_all json_ok vs) \<and>
   (\<forall>s kvs rest. parse_members n s = Inr (Some kvs, rest) \<longrightarrow>
      list_all (\<lambda>kv. json_ok (snd kv)) kvs)"
proof (induction n)
  case 0
  show ?case by simp
next
  case (Suc n)
  show ?case
  proof (intro conjI allI impI)
    fix s v rest
    assume "parse_value (Suc n) s = Inr (Some v, rest)"
    with Suc show "json_ok v"
      by (intro parse_value_ok_step [of n s v rest]) blast+
  next
    fix s vs rest
    assume "parse_elems (Suc n) s = Inr (Some vs, rest)"
    with Suc show "list_all json_ok vs"
      by (intro parse_elems_ok_step [of n s vs rest]) blast+
  next
    fix s kvs rest
    assume "parse_members (Suc n) s = Inr (Some kvs, rest)"
    with Suc show "list_all (\<lambda>kv. json_ok (snd kv)) kvs"
      by (intro parse_members_ok_step [of n s kvs rest]) blast+
  qed
qed

lemma parse_value_ok: "parse_value n s = Inr (Some v, rest) \<Longrightarrow> json_ok v"
  using parse_ok [of n] by blast

lemma JSON_parse_ok:
  assumes "JSON_parse s = Inr v"
  shows "json_ok v"
proof -
  from assms obtain rest where "parse_value (Suc (length s + length s)) s = Inr (Some v, rest)"
    unfolding JSON_parse_def
    by (cases "parse_value (Suc (length s + length s)) s")
      (auto split: if_splits option.splits simp del: parse_value.simps)
  then show ?thesis
    by (rule parse_value_ok)
qed

subsection \<open>The parser has enough fuel\<close>

text \<open>
  The lexers never answer \<open>Beyond\<close>, and no part of the parser returns more text than it
  was given.
\<close>

lemma lex_cons_Inl: "lex_cons c r = Inl e \<Longrightarrow> r = Inl e"
  by (auto simp: lex_cons_def split: sum.splits)

lemma lex_cons_Inr: "lex_cons c r = Inr (x, rest) \<Longrightarrow> \<exists>y. r = Inr (y, rest)"
  by (auto simp: lex_cons_def split: sum.splits)

text \<open>
  What the string lexer does with a first character: it stops at the quote, fails, or
  goes on after one, two or six characters.
\<close>

lemma lex_string_Cons:
  "lex_string (c # cs) = Inr (Some [], cs) \<or> lex_string (c # cs) = Inl SyntaxError \<or>
   (\<exists>ch t. lex_string (c # cs) = lex_cons ch (lex_string t) \<and> length t \<le> length cs)"
proof -
  consider (quote) "c = CHR 0x22" | (esc) "c = CHR 0x5C"
    | (raw) "c \<noteq> CHR 0x22" "c \<noteq> CHR 0x5C"
    by blast
  then show ?thesis
  proof cases
    case quote
    then show ?thesis by simp
  next
    case raw
    show ?thesis
    proof (cases "(of_char c :: nat) < 32")
      case True
      with raw show ?thesis by simp
    next
      case False
      with raw have "lex_string (c # cs) = lex_cons (Some c) (lex_string cs)"
        by simp
      then show ?thesis
        by (intro disjI2 exI [of _ "Some c"] exI [of _ cs]) simp
    qed
  next
    case esc
    show ?thesis
    proof (cases cs)
      case Nil
      with esc show ?thesis by simp
    next
      case (Cons e es)
      show ?thesis
      proof (cases "e = CHR ''u''")
        case False
        show ?thesis
        proof (cases "unescape e")
          case None
          with esc Cons False show ?thesis by simp
        next
          case (Some ch)
          with esc Cons False
          have "lex_string (c # cs) = lex_cons (Some ch) (lex_string es)"
            by simp
          then show ?thesis
            using Cons by (intro disjI2 exI [of _ "Some ch"] exI [of _ es]) simp
        qed
      next
        case True
        show ?thesis
        proof (cases "\<exists>h1 h2 h3 h4 t. es = h1 # h2 # h3 # h4 # t")
          case False
          then have "lex_string (c # cs) = Inl SyntaxError"
            using esc Cons True by (simp split: list.splits)
          then show ?thesis by simp
        next
          case True
          then obtain h1 h2 h3 h4 t where es: "es = h1 # h2 # h3 # h4 # t"
            by blast
          show ?thesis
          proof (cases "\<exists>a b c d. hex_val h1 = Some a \<and> hex_val h2 = Some b \<and>
              hex_val h3 = Some c \<and> hex_val h4 = Some d")
            case False
            then have "lex_string (c # cs) = Inl SyntaxError"
              using esc Cons \<open>e = CHR ''u''\<close> es by (auto split: option.splits)
            then show ?thesis by simp
          next
            case True
            then obtain a b c' d where "hex_val h1 = Some a" "hex_val h2 = Some b"
              "hex_val h3 = Some c'" "hex_val h4 = Some d"
              by blast
            then have "lex_string (c # cs) =
                lex_cons (if a = 0 \<and> b = 0 then Some (char_of (16 * c' + d)) else None) (lex_string t)"
              using esc Cons \<open>e = CHR ''u''\<close> es by simp
            then show ?thesis
              using Cons es
              by (intro disjI2 exI [of _ "if a = 0 \<and> b = 0 then Some (char_of (16 * c' + d)) else None"]
                  exI [of _ t]) simp
          qed
        qed
      qed
    qed
  qed
qed

lemma lex_string_err: "lex_string s = Inl e \<Longrightarrow> e = SyntaxError"
proof (induction "length s" arbitrary: s rule: less_induct)
  case less
  show ?case
  proof (cases s)
    case Nil
    with less.prems show ?thesis by simp
  next
    case (Cons c cs)
    from lex_string_Cons [of c cs] less.prems Cons
    consider "e = SyntaxError"
      | ch t where "lex_cons ch (lex_string t) = Inl e" "length t \<le> length cs"
      by auto
    then show ?thesis
    proof cases
      case 1
      then show ?thesis .
    next
      case 2
      from 2(1) have "lex_string t = Inl e"
        by (rule lex_cons_Inl)
      moreover have "length t < length s"
        using 2(2) Cons by simp
      ultimately show ?thesis
        by (rule less.hyps [rotated])
    qed
  qed
qed

lemma lex_string_length: "lex_string s = Inr (x, rest) \<Longrightarrow> length rest \<le> length s"
proof (induction "length s" arbitrary: s x rule: less_induct)
  case less
  show ?case
  proof (cases s)
    case Nil
    with less.prems show ?thesis by simp
  next
    case (Cons c cs)
    from lex_string_Cons [of c cs] less.prems Cons
    consider "rest = cs"
      | ch t where "lex_cons ch (lex_string t) = Inr (x, rest)" "length t \<le> length cs"
      by auto
    then show ?thesis
    proof cases
      case 1
      with Cons show ?thesis by simp
    next
      case 2
      from 2(1) obtain y where "lex_string t = Inr (y, rest)"
        by (blast dest: lex_cons_Inr)
      moreover have "length t < length s"
        using 2(2) Cons by simp
      ultimately have "length rest \<le> length t"
        by (rule less.hyps [rotated])
      with \<open>length t < length s\<close> show ?thesis
        by simp
    qed
  qed
qed

lemma length_skip_ws: "length (skip_ws s) \<le> length s"
  by (simp add: skip_ws_def length_dropWhile_le)

lemma skip_ws_ConsD: "skip_ws s = c # cs \<Longrightarrow> length cs < length s"
  using length_skip_ws [of s] by simp

lemma lex_frac_length: "lex_frac s = Some (b, rest) \<Longrightarrow> length rest \<le> length s"
  using length_dropWhile_le [of is_digit "tl s"]
  by (auto simp: lex_frac_def split: if_splits)

lemma lex_exp_length: "lex_exp s = Some (b, rest) \<Longrightarrow> length rest \<le> length s"
  using length_dropWhile_le [of is_digit "tl s"] length_dropWhile_le [of is_digit "tl (tl s)"]
  by (auto simp: lex_exp_def Let_def split: if_splits)

lemma lex_number_err: "lex_number s = Inl e \<Longrightarrow> e = SyntaxError"
  by (auto simp: lex_number_def Let_def split: if_splits option.splits)

lemma lex_number_length:
  assumes "lex_number s = Inr (x, rest)"
  shows "length rest \<le> length s"
proof -
  let ?s1 = "if s \<noteq> [] \<and> hd s = CHR ''-'' then tl s else s"
  from assms obtain b1 s2 b2
    where "lex_frac (dropWhile is_digit ?s1) = Some (b1, s2)" "lex_exp s2 = Some (b2, rest)"
    by (auto simp: lex_number_def Let_def split: if_splits option.splits)
  then have "length rest \<le> length (dropWhile is_digit ?s1)"
    by (blast intro: order_trans dest: lex_frac_length lex_exp_length)
  also have "\<dots> \<le> length ?s1"
    by (rule length_dropWhile_le)
  also have "\<dots> \<le> length s"
    by simp
  finally show ?thesis .
qed

lemma parse_value_length_step:
  assumes elems: "\<And>s vs rest. parse_elems n s = Inr (vs, rest) \<Longrightarrow> length rest \<le> length s"
    and members: "\<And>s kvs rest. parse_members n s = Inr (kvs, rest) \<Longrightarrow> length rest \<le> length s"
    and p: "parse_value (Suc n) s = Inr (v, rest)"
  shows "length rest \<le> length s"
proof (cases "skip_ws s")
  case Nil
  with p show ?thesis by simp
next
  case (Cons c cs)
  then have l: "length cs < length s"
    by (rule skip_ws_ConsD)
  have w: "length (tl (skip_ws cs)) \<le> length cs"
    using length_skip_ws [of cs] by simp
  from p Cons l w show ?thesis
    by (auto split: if_splits sum.splits
        dest!: elems members lex_string_length lex_number_length)
qed

lemma parse_elems_length_step:
  assumes val: "\<And>s v rest. parse_value n s = Inr (v, rest) \<Longrightarrow> length rest \<le> length s"
    and elems: "\<And>s vs rest. parse_elems n s = Inr (vs, rest) \<Longrightarrow> length rest \<le> length s"
    and p: "parse_elems (Suc n) s = Inr (vs, rest)"
  shows "length rest \<le> length s"
proof -
  from p obtain v r1 where v: "parse_value n s = Inr (v, r1)"
    by (auto split: sum.splits)
  then have l1: "length r1 \<le> length s"
    by (rule val)
  from p v obtain c cs where c: "skip_ws r1 = c # cs"
    by (cases "skip_ws r1") simp_all
  then have l2: "length cs < length r1"
    by (rule skip_ws_ConsD)
  from p v c l1 l2 show ?thesis
    by (auto split: if_splits sum.splits dest!: elems)
qed

lemma parse_members_length_step:
  assumes val: "\<And>s v rest. parse_value n s = Inr (v, rest) \<Longrightarrow> length rest \<le> length s"
    and members: "\<And>s kvs rest. parse_members n s = Inr (kvs, rest) \<Longrightarrow> length rest \<le> length s"
    and p: "parse_members (Suc n) s = Inr (kvs, rest)"
  shows "length rest \<le> length s"
proof -
  from p obtain q s1 where q: "skip_ws s = q # s1" "q = CHR 0x22"
    by (cases "skip_ws s") (auto split: if_splits)
  from p q obtain k s2 where k: "lex_string s1 = Inr (k, s2)"
    by (auto split: sum.splits)
  from p q k obtain d s3 where d: "skip_ws s2 = d # s3" "d = CHR '':''"
    by (cases "skip_ws s2") (auto split: if_splits)
  from p q k d obtain v s4 where v: "parse_value n s3 = Inr (v, s4)"
    by (auto split: sum.splits)
  from p q k d v obtain c s5 where c: "skip_ws s4 = c # s5"
    by (cases "skip_ws s4") simp_all
  have "length s5 < length s4"
    using c by (rule skip_ws_ConsD)
  also have "length s4 \<le> length s3"
    using v by (rule val)
  also have "length s3 < length s2"
    using d(1) by (rule skip_ws_ConsD)
  also have "length s2 \<le> length s1"
    using k by (rule lex_string_length)
  also have "length s1 < length s"
    using q(1) by (rule skip_ws_ConsD)
  finally have l: "length s5 < length s" .
  from p q k d v c l show ?thesis
    by (auto split: if_splits sum.splits dest!: members)
qed

lemma parse_length:
  "(\<forall>s v rest. parse_value n s = Inr (v, rest) \<longrightarrow> length rest \<le> length s) \<and>
   (\<forall>s vs rest. parse_elems n s = Inr (vs, rest) \<longrightarrow> length rest \<le> length s) \<and>
   (\<forall>s kvs rest. parse_members n s = Inr (kvs, rest) \<longrightarrow> length rest \<le> length s)"
proof (induction n)
  case 0
  show ?case by simp
next
  case (Suc n)
  show ?case
  proof (intro conjI allI impI)
    fix s v rest
    assume "parse_value (Suc n) s = Inr (v, rest)"
    with Suc show "length rest \<le> length s"
      by (intro parse_value_length_step [of n s v rest]) blast+
  next
    fix s vs rest
    assume "parse_elems (Suc n) s = Inr (vs, rest)"
    with Suc show "length rest \<le> length s"
      by (intro parse_elems_length_step [of n s vs rest]) blast+
  next
    fix s kvs rest
    assume "parse_members (Suc n) s = Inr (kvs, rest)"
    with Suc show "length rest \<le> length s"
      by (intro parse_members_length_step [of n s kvs rest]) blast+
  qed
qed

lemma parse_value_length: "parse_value n s = Inr (v, rest) \<Longrightarrow> length rest \<le> length s"
  using parse_length [of n] by blast

text \<open>
  A value in a text of length \<open>l\<close> needs at most \<open>2 * l + 1\<close> units of fuel: an array
  spends two units before its first element, and has read a character by then.
\<close>

lemma parse_value_Beyond:
  assumes "parse_value (Suc n) s = Inl Beyond"
  shows "\<exists>c cs. skip_ws s = c # cs \<and>
    (parse_elems n cs = Inl Beyond \<or> parse_members n cs = Inl Beyond \<or>
     lex_string cs = Inl Beyond \<or> lex_number (c # cs) = Inl Beyond)"
proof (cases "skip_ws s")
  case Nil
  with assms show ?thesis by simp
next
  case (Cons c cs)
  consider (arr) "c = CHR ''[''" | (obj) "c \<noteq> CHR ''[''" "c = CHR ''{''"
    | (str) "c \<noteq> CHR ''[''" "c \<noteq> CHR ''{''" "c = CHR 0x22"
    | (num) "c \<noteq> CHR ''[''" "c \<noteq> CHR ''{''" "c \<noteq> CHR 0x22" "c = CHR ''-'' \<or> is_digit c"
    | (lit) "c \<noteq> CHR ''[''" "c \<noteq> CHR ''{''" "c \<noteq> CHR 0x22" "\<not> (c = CHR ''-'' \<or> is_digit c)"
    by blast
  then show ?thesis
  proof cases
    case arr
    with assms Cons have "parse_elems n cs = Inl Beyond"
      by (simp split: if_splits sum.splits prod.splits)
    with Cons show ?thesis by simp
  next
    case obj
    with assms Cons have "parse_members n cs = Inl Beyond"
      by (simp split: if_splits sum.splits prod.splits)
    with Cons show ?thesis by simp
  next
    case str
    with assms Cons have "lex_string cs = Inl Beyond"
      by (simp split: sum.splits prod.splits)
    with Cons show ?thesis by simp
  next
    case num
    with assms Cons have "lex_number (c # cs) = Inl Beyond"
      by (simp split: sum.splits prod.splits)
    with Cons show ?thesis by simp
  next
    case lit
    with assms Cons show ?thesis
      by (simp split: if_splits)
  qed
qed

lemma parse_value_fuel_step:
  assumes elems: "\<And>s. 2 * length s + 1 < n \<Longrightarrow> parse_elems n s \<noteq> Inl Beyond"
    and members: "\<And>s. 2 * length s < n \<Longrightarrow> parse_members n s \<noteq> Inl Beyond"
    and f: "2 * length s < Suc n"
  shows "parse_value (Suc n) s \<noteq> Inl Beyond"
proof
  assume "parse_value (Suc n) s = Inl Beyond"
  from parse_value_Beyond [OF this] obtain c cs
    where c: "skip_ws s = c # cs"
      and d: "parse_elems n cs = Inl Beyond \<or> parse_members n cs = Inl Beyond \<or>
        lex_string cs = Inl Beyond \<or> lex_number (c # cs) = Inl Beyond"
    by blast
  from c have "length cs < length s"
    by (rule skip_ws_ConsD)
  with f have "2 * length cs + 1 < n"
    by simp
  then have "parse_elems n cs \<noteq> Inl Beyond" "parse_members n cs \<noteq> Inl Beyond"
    by (simp_all add: elems members)
  moreover have "lex_string cs \<noteq> Inl Beyond" "lex_number (c # cs) \<noteq> Inl Beyond"
    using lex_string_err [of cs Beyond] lex_number_err [of "c # cs" Beyond] by auto
  ultimately show False
    using d by simp
qed

lemma parse_elems_fuel_step:
  assumes val: "\<And>s. 2 * length s < n \<Longrightarrow> parse_value n s \<noteq> Inl Beyond"
    and elems: "\<And>s. 2 * length s + 1 < n \<Longrightarrow> parse_elems n s \<noteq> Inl Beyond"
    and f: "2 * length s + 1 < Suc n"
  shows "parse_elems (Suc n) s \<noteq> Inl Beyond"
proof (cases "parse_value n s")
  case (Inl e)
  moreover have "parse_value n s \<noteq> Inl Beyond"
    using f by (intro val) simp
  ultimately show ?thesis
    by auto
next
  case (Inr vr)
  obtain v r1 where vr: "vr = (v, r1)"
    by (cases vr)
  with Inr have l1: "length r1 \<le> length s"
    by (simp add: parse_value_length)
  show ?thesis
  proof (cases "skip_ws r1")
    case Nil
    with Inr vr show ?thesis by simp
  next
    case (Cons c cs)
    then have "length cs < length r1"
      by (rule skip_ws_ConsD)
    with l1 f have "2 * length cs + 1 < n"
      by simp
    then have "parse_elems n cs \<noteq> Inl Beyond"
      by (rule elems)
    with Inr vr Cons show ?thesis
      by (auto split: sum.splits prod.splits)
  qed
qed

lemma parse_members_fuel_step:
  assumes val: "\<And>s. 2 * length s < n \<Longrightarrow> parse_value n s \<noteq> Inl Beyond"
    and members: "\<And>s. 2 * length s < n \<Longrightarrow> parse_members n s \<noteq> Inl Beyond"
    and f: "2 * length s < Suc n"
  shows "parse_members (Suc n) s \<noteq> Inl Beyond"
proof
  assume b: "parse_members (Suc n) s = Inl Beyond"
  then obtain q s1 where q: "skip_ws s = q # s1" "q = CHR 0x22"
    by (cases "skip_ws s") (auto split: if_splits)
  from b q obtain k s2 where k: "lex_string s1 = Inr (k, s2)"
    by (cases "lex_string s1") (auto dest: lex_string_err)
  from b q k obtain d s3 where d: "skip_ws s2 = d # s3" "d = CHR '':''"
    by (cases "skip_ws s2") (auto split: if_splits)
  have "length s3 < length s2"
    using d(1) by (rule skip_ws_ConsD)
  also have "length s2 \<le> length s1"
    using k by (rule lex_string_length)
  also have "length s1 < length s"
    using q(1) by (rule skip_ws_ConsD)
  finally have l3: "length s3 < length s" .
  with f have "parse_value n s3 \<noteq> Inl Beyond"
    by (intro val) simp
  with b q k d obtain v s4 where v: "parse_value n s3 = Inr (v, s4)"
    by (cases "parse_value n s3") auto
  from b q k d v obtain c s5 where c: "skip_ws s4 = c # s5"
    by (cases "skip_ws s4") simp_all
  have "length s5 < length s4"
    using c by (rule skip_ws_ConsD)
  also have "length s4 \<le> length s3"
    using v by (rule parse_value_length)
  finally have "length s5 < length s"
    using l3 by simp
  with f have "parse_members n s5 \<noteq> Inl Beyond"
    by (intro members) simp
  with b q k d v c show False
    by (auto split: if_splits sum.splits)
qed

lemma parse_fuel:
  "(\<forall>s. 2 * length s < n \<longrightarrow> parse_value n s \<noteq> Inl Beyond) \<and>
   (\<forall>s. 2 * length s + 1 < n \<longrightarrow> parse_elems n s \<noteq> Inl Beyond) \<and>
   (\<forall>s. 2 * length s < n \<longrightarrow> parse_members n s \<noteq> Inl Beyond)"
proof (induction n)
  case 0
  show ?case by simp
next
  case (Suc n)
  show ?case
  proof (intro conjI allI impI)
    fix s :: string
    assume "2 * length s < Suc n"
    with Suc show "parse_value (Suc n) s \<noteq> Inl Beyond"
      by (intro parse_value_fuel_step [of n s]) blast+
  next
    fix s :: string
    assume "2 * length s + 1 < Suc n"
    with Suc show "parse_elems (Suc n) s \<noteq> Inl Beyond"
      by (intro parse_elems_fuel_step [of n s]) blast+
  next
    fix s :: string
    assume "2 * length s < Suc n"
    with Suc show "parse_members (Suc n) s \<noteq> Inl Beyond"
      by (intro parse_members_fuel_step [of n s]) blast+
  qed
qed

text \<open>
  So \<^verbatim>\<open>JSON.parse\<close> answers \<open>Beyond\<close> only after it has read the whole text as
  JSON, for a value that the model does not hold.
\<close>

lemma JSON_parse_Beyond:
  "(JSON_parse s = Inl Beyond) =
     (\<exists>rest. parse_value (Suc (length s + length s)) s = Inr (None, rest) \<and> skip_ws rest = [])"
proof -
  have "parse_value (Suc (length s + length s)) s \<noteq> Inl Beyond"
    using parse_fuel [of "Suc (length s + length s)"] by simp
  then show ?thesis
    unfolding JSON_parse_def
    by (cases "parse_value (Suc (length s + length s)) s")
      (auto split: if_splits option.splits simp del: parse_value.simps)
qed

subsection \<open>Texts that are not JSON\<close>

text \<open>The equations that run the parser on a given text.\<close>

lemmas parse_simps = JSON_parse_def skip_ws_def is_ws_def is_digit_def lex_number_def lex_frac_def
  lex_exp_def read_nat_def digit_val_def make_object_def index_key_def lex_cons_def

text \<open>
  An array that is not closed, a fraction or an exponent without digits, a number with a
  leading zero, a comma before the bracket, a key without quotes, text after the value,
  and text that stops inside a record: each is a \<open>SyntaxError\<close>, also where a part
  read before the fault is outside the model.
\<close>

lemma JSON_parse_SyntaxError:
  \<open>JSON_parse ''['' = Inl SyntaxError\<close>
  \<open>JSON_parse ''[['' = Inl SyntaxError\<close>
  \<open>JSON_parse ''[{'' = Inl SyntaxError\<close>
  \<open>JSON_parse ''[1.]'' = Inl SyntaxError\<close>
  \<open>JSON_parse ''[1e'' = Inl SyntaxError\<close>
  \<open>JSON_parse ''[01]'' = Inl SyntaxError\<close>
  \<open>JSON_parse ''[1,]'' = Inl SyntaxError\<close>
  \<open>JSON_parse ''{name:1}'' = Inl SyntaxError\<close>
  \<open>JSON_parse ''[] x'' = Inl SyntaxError\<close>
  \<open>JSON_parse ''[1.5'' = Inl SyntaxError\<close>
  \<open>JSON_parse ''{"1":2'' = Inl SyntaxError\<close>
  \<open>JSON_parse ''[{"name":"A","corr'' = Inl SyntaxError\<close>
  by (simp_all add: parse_simps)

text \<open>Texts of the grammar with a value outside the model, and two with one inside.\<close>

lemma JSON_parse_examples:
  \<open>JSON_parse ''[1.5]'' = Inl Beyond\<close>
  \<open>JSON_parse ''{"1":2}'' = Inl Beyond\<close>
  \<open>JSON_parse ''[1e2, -0]'' = Inl Beyond\<close>
  \<open>JSON_parse '' [ ] '' = Inr (JArr [])\<close>
  \<open>JSON_parse ''{"a":[true,null,-12]}'' = Inr (JObj [(''a'', JArr [JBool True, JNull, JNum (- 12)])])\<close>
  by (simp_all add: parse_simps)

section \<open>Properties of the storage functions\<close>

text \<open>
  \<^verbatim>\<open>getScoresFromStorage\<close> raises no exception, and returns the empty array for an
  absent or empty entry and for every text on which \<^verbatim>\<open>JSON.parse\<close> raises.
\<close>

lemma getScoresFromStorage_caught:
  "ls ''scores'' = Some raw \<Longrightarrow> JSON_parse raw = Inl SyntaxError \<Longrightarrow>
     getScoresFromStorage ls = Inr (JArr [])"
  "ls ''scores'' = None \<or> ls ''scores'' = Some [] \<Longrightarrow> getScoresFromStorage ls = Inr (JArr [])"
  "getScoresFromStorage ls \<noteq> Inl SyntaxError" "getScoresFromStorage ls \<noteq> Inl TypeError"
  by (auto simp: getScoresFromStorage_def split: option.splits sum.splits err.splits)

lemma getScoresFromStorage_ok: "getScoresFromStorage ls = Inr v \<Longrightarrow> json_ok v"
  by (auto simp: getScoresFromStorage_def split: option.splits if_splits sum.splits err.splits
      dest: JSON_parse_ok)

lemma stringify_nonempty: "JSON_stringify v \<noteq> []"
  using stringify_hd [of v] by auto

lemma load_after_save:
  "json_ok v \<Longrightarrow> getScoresFromStorage (setScoresInStorage ls v) = Inr v"
  by (simp add: getScoresFromStorage_def setScoresInStorage_def stringify_nonempty
      JSON_parse_stringify)

lemma index_key_fields:
  "\<not> index_key ''name''" "\<not> index_key ''correct''" "\<not> index_key ''total''" "\<not> index_key ''ts''"
  by (simp_all add: index_key_def is_digit_def)

lemma json_ok_score: "representable r \<Longrightarrow> json_ok (score_json r)"
  by (simp add: score_json_def representable_def index_key_fields)

lemma json_ok_scores: "\<forall>r \<in> set xs. representable r \<Longrightarrow> json_ok (scores_json xs)"
  by (simp add: scores_json_def list_all_iff json_ok_score)

lemma as_score_json: "as_score (score_json r) = Some r"
  by (simp add: as_score_def score_json_def as_count_def)

lemma as_scores_json: "as_scores (map score_json xs) = Some xs"
  by (induction xs) (simp_all add: as_score_json)

lemma as_scores_append:
  "as_scores vs = Some xs \<Longrightarrow> as_scores (vs @ [score_json r]) = Some (xs @ [r])"
  by (induction vs arbitrary: xs) (auto simp: as_score_json split: option.splits)

lemma persistedD:
  "persisted ls = Some xs \<Longrightarrow>
     \<exists>vs. getScoresFromStorage ls = Inr (JArr vs) \<and> as_scores vs = Some xs"
  by (auto simp: persisted_def split: sum.splits json.splits)

lemma persisted_after_save:
  "\<forall>r \<in> set xs. representable r \<Longrightarrow> persisted (setScoresInStorage ls (scores_json xs)) = Some xs"
  by (simp add: persisted_def load_after_save json_ok_scores)
    (simp add: scores_json_def as_scores_json)

section \<open>Properties of \<^verbatim>\<open>displayScores\<close>\<close>

text \<open>What \<^verbatim>\<open>displayScores\<close> leaves on the page for the stored records \<open>xs\<close>.\<close>

lemma displayScores_persisted:
  assumes "persisted (localStorage p) = Some xs"
  shows "displayScores p =
    (let scores = sortScores (getSortPreference (localStorage p)) xs;
         tp = topPercent scores;
         n = topCount tp scores;
         p1 = p\<lparr>tbody := map (render_row tp) scores\<rparr>
     in if length scores = 0
        then Inr (p1\<lparr>topScoreBox := NoSummary, topScoreBox_hidden := True\<rparr>)
        else Inr (p1\<lparr>topScoreBox := TopSummary tp n (if n = 1 then ''player'' else ''players''),
                       topScoreBox_hidden := False\<rparr>))"
proof -
  from persistedD [OF assms] obtain vs
    where "getScoresFromStorage (localStorage p) = Inr (JArr vs)" "as_scores vs = Some xs"
    by blast
  then show ?thesis
    by (simp add: displayScores_def)
qed

lemma displayScores_rows:
  assumes "persisted (localStorage p) = Some xs"
  shows "\<exists>p'. displayScores p = Inr p' \<and> localStorage p' = localStorage p \<and>
    tbody p' =
      map (render_row (topPercent (sortScores (getSortPreference (localStorage p)) xs)))
        (sortScores (getSortPreference (localStorage p)) xs)"
  by (simp add: displayScores_persisted [OF assms] Let_def)

lemma length_sortScores: "length (sortScores pref xs) = length xs"
  using mset_sortScores [of pref xs] by (rule mset_eq_length)

lemma sortScores_other:
  "pref \<notin> {''newest'', ''oldest'', ''highest'', ''lowest''} \<Longrightarrow> sortScores pref xs = xs"
  by (simp add: sortScores_def)

text \<open>Three quotients by ten, as doubles.\<close>

lemma tenths:
  "js_div 5 10 = 1 / 2"
  "js_div 7 10 = 3152519739159347 / 4503599627370496"
  "js_div 9 10 = 8106479329266893 / 9007199254740992"
  by code_simp+

text \<open>Scenario A: nine tenths, then seven, then five, whatever the timestamps are.\<close>

lemma sort_highest_scenario:
  "sortScores ''highest''
     [\<lparr>name = ''A'', correct = 7, total = 10, ts = t1\<rparr>,
      \<lparr>name = ''B'', correct = 9, total = 10, ts = t2\<rparr>,
      \<lparr>name = ''C'', correct = 5, total = 10, ts = t3\<rparr>] =
     [\<lparr>name = ''B'', correct = 9, total = 10, ts = t2\<rparr>,
      \<lparr>name = ''A'', correct = 7, total = 10, ts = t1\<rparr>,
      \<lparr>name = ''C'', correct = 5, total = 10, ts = t3\<rparr>]"
  by (simp add: sortScores_def Array_sort_def cmp_highest_def ratio_def tenths)

text \<open>The stored text of the example is the text of its records.\<close>

lemma scenario_text_eq: "JSON_stringify (scores_json scenario) = scenario_text"
  by (simp add: scores_json_def score_json_def scenario_def scenario_text_def member_text_def
      quote_def escape_char_def show_int_def show_nat.simps digit_char_def)

lemma persisted_scenario:
  assumes "ls ''scores'' = Some scenario_text"
  shows "persisted ls = Some scenario"
proof -
  have "\<forall>r \<in> set scenario. representable r"
    by (simp add: scenario_def representable_def)
  then have "JSON_parse scenario_text = Inr (scores_json scenario)"
    using JSON_parse_stringify [of "scores_json scenario"]
    by (simp add: scenario_text_eq json_ok_scores)
  moreover have "scenario_text \<noteq> []"
    using stringify_nonempty [of "scores_json scenario"] by (simp add: scenario_text_eq)
  ultimately show ?thesis
    using assms
    by (simp add: persisted_def getScoresFromStorage_def scores_json_def as_scores_json)
qed

section \<open>Properties of \<^verbatim>\<open>handleFormSubmit\<close>\<close>

lemma selected_None: "selected b = None \<longleftrightarrow> (\<forall>r \<in> set (radios b). \<not> checked r)"
  by (auto simp: selected_def find_None_iff)

lemma firstUnanswered_Some:
  "firstUnanswered bs \<noteq> None \<longleftrightarrow> (\<exists>b \<in> set bs. \<forall>r \<in> set (radios b). \<not> checked r)"
  by (auto simp: firstUnanswered_def find_None_iff selected_None)

lemma radios_mark_invalid: "radios \<circ> mark_invalid = radios"
  by (simp add: fun_eq_iff mark_invalid_def)

lemma filter_both_le: "length (filter (\<lambda>r. P r \<and> Q r) rs) \<le> length (filter Q rs)"
  by (induction rs) simp_all

lemma count_correct_le:
  assumes "\<forall>b \<in> set bs. length (filter checked (radios b)) \<le> 1"
  shows "length (filter (\<lambda>r. data_correct r \<and> checked r) (concat (map radios bs))) \<le> length bs"
  using assms
proof (induction bs)
  case Nil
  show ?case by simp
next
  case (Cons b bs)
  have "length (filter (\<lambda>r. data_correct r \<and> checked r) (radios b))
      \<le> length (filter checked (radios b))"
    by (rule filter_both_le)
  with Cons show ?case
    by simp
qed

text \<open>The handler up to its two early returns.\<close>

lemma handleFormSubmit_unanswered:
  assumes "firstUnanswered (blocks p) \<noteq> None"
  shows "handleFormSubmit now p =
    Inr (p\<lparr>blocks := map mark_invalid (blocks p),
           alerts := alerts p @ [''Please answer all questions before submitting.'']\<rparr>)"
  using assms by (simp add: handleFormSubmit_def Let_def)

lemma handleFormSubmit_unnamed:
  assumes "firstUnanswered (blocks p) = None" and "trim (usernameInput p) = []"
  shows "handleFormSubmit now p =
    Inr (p\<lparr>blocks := map mark_invalid (blocks p),
           alerts := alerts p @ [''Please enter your name before finishing the game.'']\<rparr>)"
  using assms by (simp add: handleFormSubmit_def Let_def)

lemma counts_mark_invalid:
  "totalQuestions (p\<lparr>blocks := map mark_invalid (blocks p)\<rparr>) = totalQuestions p"
  "correctSelections (p\<lparr>blocks := map mark_invalid (blocks p)\<rparr>) = correctSelections p"
  by (simp_all add: totalQuestions_def correctSelections_def radios_mark_invalid)

lemma localStorage_displayScores: "displayScores p = Inr p' \<Longrightarrow> localStorage p' = localStorage p"
  by (auto simp: displayScores_def Let_def split: sum.splits json.splits option.splits if_splits)

lemma handleFormSubmit_saved:
  assumes "firstUnanswered (blocks p) = None" and "trim (usernameInput p) \<noteq> []"
    and "handleFormSubmit now p = Inr p'"
  shows "saveScoreToStorage (localStorage p) (trim (usernameInput p)) (correctSelections p)
      (totalQuestions p) now = Inr (localStorage p')"
proof -
  let ?save = "saveScoreToStorage (localStorage p) (trim (usernameInput p)) (correctSelections p)
      (totalQuestions p) now"
  from assms obtain ls where ls: "?save = Inr ls"
    by (cases ?save) (simp_all add: handleFormSubmit_def Let_def counts_mark_invalid)
  with assms obtain q p3 where "displayScores q = Inr p3" "localStorage q = ls"
    "p' = p3\<lparr>newPlayerButton_hidden := False, submit_disabled := True\<rparr>"
    by (auto simp: handleFormSubmit_def Let_def counts_mark_invalid split: sum.splits)
  with ls localStorage_displayScores [of q p3] show ?thesis
    by simp
qed

lemma handleFormSubmit_shown:
  assumes "firstUnanswered (blocks p) = None" and "trim (usernameInput p) \<noteq> []"
    and "saveScoreToStorage (localStorage p) (trim (usernameInput p)) (correctSelections p)
      (totalQuestions p) now = Inr ls"
  shows "\<exists>q. localStorage q = ls \<and>
    handleFormSubmit now p =
      (case displayScores q of
         Inl e \<Rightarrow> Inl e
       | Inr p3 \<Rightarrow> Inr (p3\<lparr>newPlayerButton_hidden := False, submit_disabled := True\<rparr>))"
  unfolding handleFormSubmit_def Let_def
  using assms
  apply (simp add: counts_mark_invalid)
  apply (rule exI, rule conjI [rotated], rule refl)
  apply simp
  done

text \<open>The handler returns, and the stored sequence grows by the graded record.\<close>

lemma handleFormSubmit_accepts:
  assumes "firstUnanswered (blocks p) = None" and "trim (usernameInput p) \<noteq> []"
    and "persisted (localStorage p) = Some xs" and "representable (graded now p)"
  shows "\<exists>p'. handleFormSubmit now p = Inr p' \<and>
    persisted (localStorage p') = Some (xs @ [graded now p])"
proof -
  let ?r = "graded now p"
  from persistedD [OF assms(3)] obtain vs
    where vs: "getScoresFromStorage (localStorage p) = Inr (JArr vs)" "as_scores vs = Some xs"
    by blast
  let ?ls = "setScoresInStorage (localStorage p) (JArr (vs @ [score_json ?r]))"
  have save: "saveScoreToStorage (localStorage p) (trim (usernameInput p)) (correctSelections p)
      (totalQuestions p) now = Inr ?ls"
    using vs(1) by (simp add: saveScoreToStorage_def graded_def)
  have "json_ok (JArr vs)"
    using vs(1) by (rule getScoresFromStorage_ok)
  then have ok: "json_ok (JArr (vs @ [score_json ?r]))"
    using assms(4) by (simp add: json_ok_score)
  have per: "persisted ?ls = Some (xs @ [?r])"
    by (simp add: persisted_def load_after_save [OF ok] as_scores_append [OF vs(2)])
  from handleFormSubmit_shown [OF assms(1,2) save] obtain q
    where q: "localStorage q = ?ls"
      and h: "handleFormSubmit now p =
        (case displayScores q of
           Inl e \<Rightarrow> Inl e
         | Inr p3 \<Rightarrow> Inr (p3\<lparr>newPlayerButton_hidden := False, submit_disabled := True\<rparr>))"
    by blast
  from per q have "persisted (localStorage q) = Some (xs @ [?r])"
    by simp
  from displayScores_rows [OF this] obtain p3
    where "displayScores q = Inr p3" "localStorage p3 = localStorage q"
    by blast
  with h q per show ?thesis
    by simp
qed

lemma persisted_after_append:
  assumes "persisted ls = Some xs" and "representable r"
  shows "\<exists>ls'. saveScoreToStorage ls (name r) (correct r) (total r) (ts r) = Inr ls' \<and>
    persisted ls' = Some (xs @ [r])"
proof -
  from persistedD [OF assms(1)] obtain vs
    where vs: "getScoresFromStorage ls = Inr (JArr vs)" "as_scores vs = Some xs"
    by blast
  let ?ls = "setScoresInStorage ls (JArr (vs @ [score_json r]))"
  have save: "saveScoreToStorage ls (name r) (correct r) (total r) (ts r) = Inr ?ls"
    using vs(1) by (simp add: saveScoreToStorage_def score_json_def)
  have "json_ok (JArr vs)"
    using vs(1) by (rule getScoresFromStorage_ok)
  then have ok: "json_ok (JArr (vs @ [score_json r]))"
    using assms(2) by (simp add: json_ok_score)
  have "persisted ?ls = Some (xs @ [r])"
    by (simp add: persisted_def load_after_save [OF ok] as_scores_append [OF vs(2)])
  with save show ?thesis
    by blast
qed

lemma quiz_facts:
  "firstUnanswered (blocks quiz) = None"
  "trim (usernameInput quiz) \<noteq> []"
  "graded now quiz = \<lparr>name = ''Ann'', correct = 1, total = 2, ts = now\<rparr>"
  "persisted (localStorage quiz) = Some []"
  "\<forall>b \<in> set (blocks quiz). length (filter checked (radios b)) \<le> 1"
  by (simp_all add: quiz_def blank_def answer_def firstUnanswered_def selected_def trim_def
      is_space_def graded_def correctSelections_def totalQuestions_def getScoresFromStorage_def
      persisted_def)

section \<open>Properties of the top score\<close>

lemma foldl_best:
  "foldl (\<lambda>best s. let pct = percent s in if pct > best then pct else best) b xs =
     Max (insert b (percent ` set xs))"
proof (induction xs arbitrary: b)
  case Nil
  show ?case by simp
next
  case (Cons x xs)
  have "(if b < percent x then percent x else b) = max b (percent x)"
    by (simp add: max_def)
  moreover have "Max (insert (max b (percent x)) (percent ` set xs)) =
      Max (insert b (insert (percent x) (percent ` set xs)))"
    by (cases "xs = []") (simp_all add: max.assoc)
  ultimately show ?case
    using Cons.IH [of "max b (percent x)"] by (simp add: Let_def)
qed

lemma topPercent_Max:
  assumes "xs \<noteq> []"
  shows "topPercent xs = Some (Max (percent ` set xs))"
proof -
  from assms obtain x where "x \<in> set xs"
    by (cases xs) auto
  then have "percent x \<le> Max (percent ` set xs)"
    by simp
  with percent_nonneg [of x] have "0 \<le> Max (percent ` set xs)"
    by (rule order_trans)
  then have "Max (insert 0 (percent ` set xs)) = Max (percent ` set xs)"
    using assms by (simp add: max_def)
  with assms show ?thesis
    by (simp add: topPercent_def foldl_best)
qed

lemma foldl_count:
  "foldl (\<lambda>n s. if P s then n + 1 else n) k xs = k + length (filter P xs)"
  by (induction xs arbitrary: k) simp_all

lemma topCount_filter: "topCount (Some m) xs = length (filter (\<lambda>s. percent s = m) xs)"
  by (simp add: topCount_def is_top_def foldl_count)

lemma set_sortScores: "set (sortScores pref xs) = set xs"
  using mset_sortScores [of pref xs] by (rule mset_eq_setD)

lemma filter_sortScores: "length (filter P (sortScores pref xs)) = length (filter P xs)"
proof -
  have "mset (filter P (sortScores pref xs)) = mset (filter P xs)"
    by (simp only: mset_filter mset_sortScores)
  then show ?thesis
    by (rule mset_eq_length)
qed

lemma sortScores_Nil: "sortScores pref xs = [] \<longleftrightarrow> xs = []"
  using length_sortScores [of pref xs] by (metis length_0_conv)

text \<open>The top score of a sorted sequence is that of the stored one.\<close>

lemma top_sorted:
  assumes "xs \<noteq> []"
  shows "topPercent (sortScores pref xs) = Some (Max (percent ` set xs))"
    and "topCount (Some (Max (percent ` set xs))) (sortScores pref xs) =
      length (filter (\<lambda>s. percent s = Max (percent ` set xs)) xs)"
  using assms
  by (simp_all add: topPercent_Max sortScores_Nil set_sortScores topCount_filter filter_sortScores)

text \<open>Two percentages, as the code computes them.\<close>

lemma percent_23_40: "percent \<lparr>name = nm, correct = 23, total = 40, ts = t\<rparr> = 57"
proof -
  have "Math_round (js_mul (js_div 23 40) 100) = 57"
    by code_simp
  then show ?thesis
    by (simp add: percent_def ratio_def)
qed

lemma percent_46_80: "percent \<lparr>name = nm, correct = 46, total = 80, ts = t\<rparr> = 57"
proof -
  have "Math_round (js_mul (js_div 46 80) 100) = 57"
    by code_simp
  then show ?thesis
    by (simp add: percent_def ratio_def)
qed

lemma Math_round_0: "Math_round 0 = 0"
  by (simp add: Math_round_def floor_eq_iff)

lemma percent_0_0: "total r = 0 \<Longrightarrow> percent r = 0"
  by (simp add: percent_def ratio_def js_mul_def fl_def Math_round_0)

lemma percent_record:
  assumes "0 < total r" and "correct r \<le> total r" and "total r \<le> 2 ^ 32"
    and "\<not> (total r dvd 200 * correct r \<and> \<not> total r dvd 100 * correct r)"
  shows "percent r = round (100 * of_nat (correct r) / of_nat (total r) :: rat)"
  using percent_exact [OF assms] assms(1) by (simp add: percent_def ratio_def)

lemma percent_spec:
  assumes "in_range r" and "\<not> half_way r"
  shows "percent r = spec_percent r"
proof (cases "total r = 0")
  case True
  then show ?thesis
    by (simp add: spec_percent_def percent_0_0)
next
  case False
  with assms show ?thesis
    by (simp add: spec_percent_def in_range_def half_way_def percent_record)
qed

lemma percent_scenario:
  "percent \<lparr>name = nm, correct = 7, total = 10, ts = t\<rparr> = 70"
  "percent \<lparr>name = nm, correct = 9, total = 10, ts = t\<rparr> = 90"
  "percent \<lparr>name = nm, correct = 5, total = 10, ts = t\<rparr> = 50"
  by (subst percent_record; simp)+

lemma sortScores_single: "sortScores pref [r] = [r]"
  by (simp add: sortScores_def Array_sort_def)

text \<open>Saving the first record, and showing it.\<close>

lemma first_record_shown:
  assumes "localStorage p ''scores'' = None" and "representable r"
  shows "\<exists>ls p'. saveScoreToStorage (localStorage p) (name r) (correct r) (total r) (ts r) = Inr ls \<and>
    displayScores (p\<lparr>localStorage := ls\<rparr>) = Inr p' \<and>
    tbody p' = [render_row (Some (percent r)) r] \<and>
    topScoreBox p' = TopSummary (Some (percent r)) 1 ''player''"
proof -
  let ?ls = "setScoresInStorage (localStorage p) (JArr [score_json r])"
  have load: "getScoresFromStorage (localStorage p) = Inr (JArr [])"
    using assms(1) by (simp add: getScoresFromStorage_def)
  then have save: "saveScoreToStorage (localStorage p) (name r) (correct r) (total r) (ts r) = Inr ?ls"
    by (simp add: saveScoreToStorage_def score_json_def)
  have "json_ok (JArr [score_json r])"
    using assms(2) by (simp add: json_ok_score)
  then have "persisted ?ls = Some [r]"
    by (simp add: persisted_def load_after_save as_score_json)
  then have per: "persisted (localStorage (p\<lparr>localStorage := ?ls\<rparr>)) = Some [r]"
    by simp
  have tp: "topPercent [r] = Some (percent r)"
    using percent_nonneg [of r] by (auto simp: topPercent_def Let_def)
  have "displayScores (p\<lparr>localStorage := ?ls\<rparr>) =
      Inr (p\<lparr>localStorage := ?ls, tbody := [render_row (Some (percent r)) r],
             topScoreBox := TopSummary (Some (percent r)) 1 ''player'',
             topScoreBox_hidden := False\<rparr>)"
    by (simp add: displayScores_persisted [OF per] sortScores_single tp topCount_filter Let_def)
  with save show ?thesis
    by simp
qed

section \<open>The claims\<close>

text \<open>
  C1. For every persisted sequence of score records, the rows that \<^verbatim>\<open>displayScores\<close>
  renders are those records in the order of the preference: newest is descending
  timestamp, oldest is ascending timestamp, highest is descending ratio (the quotient
  \<^verbatim>\<open>correct / total\<close> that the code computes) with ties in descending timestamp,
  lowest is ascending ratio with ties in ascending timestamp. For records with
  \<open>correct \<le> total \<le> 2 ^ 25\<close> the order by that double is the order by the exact
  ratio; far above that bound two different fractions can be the same double, and the
  code breaks the tie by the timestamps. The records A 7/10, B 9/10 and C 5/10 are shown in the order B, A, C under
  highest, for any timestamps.
\<close>

theorem displayScores_order:
  assumes "persisted (localStorage p) = Some xs"
  shows "\<exists>p' ys. displayScores p = Inr p' \<and> tbody p' = map (render_row (topPercent ys)) ys \<and>
    mset ys = mset xs \<and>
    (getSortPreference (localStorage p) = ''newest'' \<longrightarrow> sorted_wrt (\<lambda>a b. ts b \<le> ts a) ys) \<and>
    (getSortPreference (localStorage p) = ''oldest'' \<longrightarrow> sorted_wrt (\<lambda>a b. ts a \<le> ts b) ys) \<and>
    (getSortPreference (localStorage p) = ''highest'' \<longrightarrow>
       sorted_wrt (\<lambda>a b. ratio b < ratio a \<or> (ratio a = ratio b \<and> ts b \<le> ts a)) ys) \<and>
    (getSortPreference (localStorage p) = ''lowest'' \<longrightarrow>
       sorted_wrt (\<lambda>a b. ratio a < ratio b \<or> (ratio a = ratio b \<and> ts a \<le> ts b)) ys) \<and>
    (getSortPreference (localStorage p) = ''highest'' \<and> (\<forall>r \<in> set xs. small r) \<longrightarrow>
       sorted_wrt (\<lambda>a b. spec_ratio b < spec_ratio a \<or>
         (spec_ratio a = spec_ratio b \<and> ts b \<le> ts a)) ys) \<and>
    (getSortPreference (localStorage p) = ''lowest'' \<and> (\<forall>r \<in> set xs. small r) \<longrightarrow>
       sorted_wrt (\<lambda>a b. spec_ratio a < spec_ratio b \<or>
         (spec_ratio a = spec_ratio b \<and> ts a \<le> ts b)) ys) \<and>
    (getSortPreference (localStorage p) = ''highest'' \<and>
     xs = [\<lparr>name = ''A'', correct = 7, total = 10, ts = t1\<rparr>,
           \<lparr>name = ''B'', correct = 9, total = 10, ts = t2\<rparr>,
           \<lparr>name = ''C'', correct = 5, total = 10, ts = t3\<rparr>] \<longrightarrow>
       map row_name (tbody p') = [''B'', ''A'', ''C''])"
proof -
  let ?pref = "getSortPreference (localStorage p)"
  let ?ys = "sortScores ?pref xs"
  from displayScores_rows [OF assms] obtain p'
    where d: "displayScores p = Inr p'" and t: "tbody p' = map (render_row (topPercent ?ys)) ?ys"
    by blast
  have m: "mset ?ys = mset xs"
    by (rule mset_sortScores)
  have n: "?pref = ''newest'' \<longrightarrow> sorted_wrt (\<lambda>a b. ts b \<le> ts a) ?ys"
  proof
    assume "?pref = ''newest''"
    then have "?ys = Array_sort cmp_newest xs"
      by (simp add: sortScores_def)
    then show "sorted_wrt (\<lambda>a b. ts b \<le> ts a) ?ys"
      by (simp only: sorted_newest)
  qed
  have o: "?pref = ''oldest'' \<longrightarrow> sorted_wrt (\<lambda>a b. ts a \<le> ts b) ?ys"
  proof
    assume "?pref = ''oldest''"
    then have "?ys = Array_sort cmp_oldest xs"
      by (simp add: sortScores_def)
    then show "sorted_wrt (\<lambda>a b. ts a \<le> ts b) ?ys"
      by (simp only: sorted_oldest)
  qed
  have h: "?pref = ''highest'' \<longrightarrow>
      sorted_wrt (\<lambda>a b. ratio b < ratio a \<or> (ratio a = ratio b \<and> ts b \<le> ts a)) ?ys"
  proof
    assume "?pref = ''highest''"
    then have "?ys = Array_sort cmp_highest xs"
      by (simp add: sortScores_def)
    then show "sorted_wrt (\<lambda>a b. ratio b < ratio a \<or> (ratio a = ratio b \<and> ts b \<le> ts a)) ?ys"
      by (simp only: sorted_highest)
  qed
  have l: "?pref = ''lowest'' \<longrightarrow>
      sorted_wrt (\<lambda>a b. ratio a < ratio b \<or> (ratio a = ratio b \<and> ts a \<le> ts b)) ?ys"
  proof
    assume "?pref = ''lowest''"
    then have "?ys = Array_sort cmp_lowest xs"
      by (simp add: sortScores_def)
    then show "sorted_wrt (\<lambda>a b. ratio a < ratio b \<or> (ratio a = ratio b \<and> ts a \<le> ts b)) ?ys"
      by (simp only: sorted_lowest)
  qed
  have hs: "?pref = ''highest'' \<and> (\<forall>r \<in> set xs. small r) \<longrightarrow>
       sorted_wrt (\<lambda>a b. spec_ratio b < spec_ratio a \<or>
         (spec_ratio a = spec_ratio b \<and> ts b \<le> ts a)) ?ys"
  proof (intro impI, elim conjE)
    assume "?pref = ''highest''" and sm: "\<forall>r \<in> set xs. small r"
    then have "?ys = Array_sort cmp_highest xs"
      by (simp add: sortScores_def)
    with sorted_highest_spec [OF sm]
    show "sorted_wrt (\<lambda>a b. spec_ratio b < spec_ratio a \<or>
         (spec_ratio a = spec_ratio b \<and> ts b \<le> ts a)) ?ys"
      by simp
  qed
  have ls: "?pref = ''lowest'' \<and> (\<forall>r \<in> set xs. small r) \<longrightarrow>
       sorted_wrt (\<lambda>a b. spec_ratio a < spec_ratio b \<or>
         (spec_ratio a = spec_ratio b \<and> ts a \<le> ts b)) ?ys"
  proof (intro impI, elim conjE)
    assume "?pref = ''lowest''" and sm: "\<forall>r \<in> set xs. small r"
    then have "?ys = Array_sort cmp_lowest xs"
      by (simp add: sortScores_def)
    with sorted_lowest_spec [OF sm]
    show "sorted_wrt (\<lambda>a b. spec_ratio a < spec_ratio b \<or>
         (spec_ratio a = spec_ratio b \<and> ts a \<le> ts b)) ?ys"
      by simp
  qed
  have s: "?pref = ''highest'' \<and>
     xs = [\<lparr>name = ''A'', correct = 7, total = 10, ts = t1\<rparr>,
           \<lparr>name = ''B'', correct = 9, total = 10, ts = t2\<rparr>,
           \<lparr>name = ''C'', correct = 5, total = 10, ts = t3\<rparr>] \<longrightarrow>
       map row_name (tbody p') = [''B'', ''A'', ''C'']"
  proof (intro impI, elim conjE)
    assume "?pref = ''highest''"
      and "xs = [\<lparr>name = ''A'', correct = 7, total = 10, ts = t1\<rparr>,
           \<lparr>name = ''B'', correct = 9, total = 10, ts = t2\<rparr>,
           \<lparr>name = ''C'', correct = 5, total = 10, ts = t3\<rparr>]"
    then have "?ys = [\<lparr>name = ''B'', correct = 9, total = 10, ts = t2\<rparr>,
      \<lparr>name = ''A'', correct = 7, total = 10, ts = t1\<rparr>,
      \<lparr>name = ''C'', correct = 5, total = 10, ts = t3\<rparr>]"
      by (simp only: sort_highest_scenario)
    then show "map row_name (tbody p') = [''B'', ''A'', ''C'']"
      by (simp add: t render_row_def)
  qed
  from d t m n o h l hs ls s show ?thesis
    by (intro exI [of _ p'] exI [of _ ?ys] conjI)
qed

theorem displayScores_order_witness:
  "\<exists>p'. displayScores
      (blank\<lparr>localStorage := [''scoreSort'' \<mapsto> ''highest'', ''scores'' \<mapsto> scenario_text]\<rparr>) = Inr p' \<and>
     map row_name (tbody p') = [''B'', ''A'', ''C'']"
proof -
  let ?p = "blank\<lparr>localStorage := [''scoreSort'' \<mapsto> ''highest'', ''scores'' \<mapsto> scenario_text]\<rparr>"
  have "persisted (localStorage ?p) = Some scenario"
    by (rule persisted_scenario) simp
  then have h: "persisted (localStorage ?p) =
      Some [\<lparr>name = ''A'', correct = 7, total = 10, ts = 1\<rparr>,
            \<lparr>name = ''B'', correct = 9, total = 10, ts = 2\<rparr>,
            \<lparr>name = ''C'', correct = 5, total = 10, ts = 3\<rparr>]"
    by (simp only: scenario_def)
  have g: "getSortPreference (localStorage ?p) = ''highest''"
    by (simp add: getSortPreference_def)
  from displayScores_order [OF h, of 1 2 3] obtain p'
    where "displayScores ?p = Inr p'"
      and "getSortPreference (localStorage ?p) = ''highest'' \<and>
        [\<lparr>name = ''A'', correct = 7, total = 10, ts = 1\<rparr>,
         \<lparr>name = ''B'', correct = 9, total = 10, ts = 2\<rparr>,
         \<lparr>name = ''C'', correct = 5, total = 10, ts = 3\<rparr>] =
        [\<lparr>name = ''A'', correct = 7, total = 10, ts = 1\<rparr>,
         \<lparr>name = ''B'', correct = 9, total = 10, ts = 2\<rparr>,
         \<lparr>name = ''C'', correct = 5, total = 10, ts = 3\<rparr>] \<longrightarrow>
        map row_name (tbody p') = [''B'', ''A'', ''C'']"
    by (elim exE conjE)
  with g show ?thesis
    by (intro exI [of _ p']) simp
qed

text \<open>
  The order by the exact ratio fails for two records whose ratios differ and are the same
  double: the record with the smaller ratio, saved later, is shown first under
  \<open>highest\<close>.
\<close>

theorem displayScores_order_not_exact:
  \<open>displayScores (blank\<lparr>localStorage := [''scoreSort'' \<mapsto> ''highest'', ''scores'' \<mapsto>
       ''[{"name":"B","correct":134217728,"total":134217729,"ts":1},{"name":"A","correct":134217727,"total":134217728,"ts":2}]'']\<rparr>) =
     Inr (blank\<lparr>localStorage := [''scoreSort'' \<mapsto> ''highest'', ''scores'' \<mapsto>
       ''[{"name":"B","correct":134217728,"total":134217729,"ts":1},{"name":"A","correct":134217727,"total":134217728,"ts":2}]''],
                tbody := [\<lparr>row_top = True, row_name = ''A'', row_score = ''134217727/134217728''\<rparr>,
                          \<lparr>row_top = True, row_name = ''B'', row_score = ''134217728/134217729''\<rparr>],
                topScoreBox := TopSummary (Some 100) 2 ''players'', topScoreBox_hidden := False\<rparr>) \<and>
   spec_ratio \<lparr>name = ''A'', correct = 134217727, total = 134217728, ts = 2\<rparr> <
     spec_ratio \<lparr>name = ''B'', correct = 134217728, total = 134217729, ts = 1\<rparr>\<close>
proof -
  let ?p = \<open>blank\<lparr>localStorage := [''scoreSort'' \<mapsto> ''highest'', ''scores'' \<mapsto>
       ''[{"name":"B","correct":134217728,"total":134217729,"ts":1},{"name":"A","correct":134217727,"total":134217728,"ts":2}]'']\<rparr>\<close>
  have h: "persisted (localStorage ?p) =
      Some [\<lparr>name = ''B'', correct = 134217728, total = 134217729, ts = 1\<rparr>,
            \<lparr>name = ''A'', correct = 134217727, total = 134217728, ts = 2\<rparr>]"
    by (simp add: persisted_def getScoresFromStorage_def parse_simps as_score_def as_count_def)
  have tp: "topPercent [\<lparr>name = ''A'', correct = 134217727, total = 134217728, ts = s\<rparr>,
      \<lparr>name = ''B'', correct = 134217728, total = 134217729, ts = t\<rparr>] = Some 100" for s t
    by (simp add: topPercent_def percent_tie)
  have "spec_ratio \<lparr>name = ''A'', correct = 134217727, total = 134217728, ts = 2\<rparr> <
     spec_ratio \<lparr>name = ''B'', correct = 134217728, total = 134217729, ts = 1\<rparr>"
    by (simp add: spec_ratio_def field_simps)
  then show ?thesis
    by (simp add: displayScores_persisted [OF h] getSortPreference_def sort_highest_tie tp
        topCount_filter Let_def
        percent_tie render_row_def is_top_def show_nat.simps digit_char_def)
qed

text \<open>
  C8. For every persisted sequence of score records and every sort preference, the
  sequence that \<^verbatim>\<open>displayScores\<close> renders is a permutation of the persisted sequence:
  the table gets one row for each record, with the name and the score of the record,
  and the stored text is not changed.
\<close>

theorem displayScores_permutation:
  assumes "persisted (localStorage p) = Some xs"
  shows "\<exists>p' ys tp. displayScores p = Inr p' \<and> tbody p' = map (render_row tp) ys \<and>
    mset ys = mset xs \<and> length (tbody p') = length xs \<and> localStorage p' = localStorage p \<and>
    map row_name (tbody p') = map name ys \<and>
    map row_score (tbody p') = map (\<lambda>r. show_nat (correct r) @ ''/'' @ show_nat (total r)) ys"
proof -
  let ?ys = "sortScores (getSortPreference (localStorage p)) xs"
  from displayScores_rows [OF assms] obtain p'
    where "displayScores p = Inr p'" "localStorage p' = localStorage p"
      "tbody p' = map (render_row (topPercent ?ys)) ?ys"
    by blast
  moreover have "mset ?ys = mset xs" "length ?ys = length xs"
    by (simp_all add: mset_sortScores length_sortScores)
  ultimately show ?thesis
    by (intro exI [of _ p'] exI [of _ ?ys] exI [of _ "topPercent ?ys"])
      (simp add: render_row_def o_def)
qed

theorem displayScores_permutation_witness:
  "\<exists>p'. displayScores
      (blank\<lparr>localStorage := [''scoreSort'' \<mapsto> ''oldest'', ''scores'' \<mapsto> scenario_text]\<rparr>) = Inr p' \<and>
     length (tbody p') = 3"
proof -
  let ?p = "blank\<lparr>localStorage := [''scoreSort'' \<mapsto> ''oldest'', ''scores'' \<mapsto> scenario_text]\<rparr>"
  have h: "persisted (localStorage ?p) = Some scenario"
    by (rule persisted_scenario) simp
  from displayScores_permutation [OF h] obtain p'
    where "displayScores ?p = Inr p'" "length (tbody p') = length scenario"
    by (elim exE conjE)
  then show ?thesis
    by (intro exI [of _ p']) (simp add: scenario_def)
qed

text \<open>
  C10. A stored preference that is a non-empty string other than the four names is
  returned as it is by \<^verbatim>\<open>getSortPreference\<close> (which gives \<open>newest\<close> only for an absent,
  an empty or that very value), and \<^verbatim>\<open>displayScores\<close> then renders the records in the
  persisted order.
\<close>

theorem unknown_preference_keeps_order:
  assumes "localStorage p ''scoreSort'' = Some pref" and "pref \<noteq> []"
    and "pref \<notin> {''newest'', ''oldest'', ''highest'', ''lowest''}"
    and "persisted (localStorage p) = Some xs"
  shows "getSortPreference (localStorage p) = pref \<and>
    (\<exists>p'. displayScores p = Inr p' \<and> tbody p' = map (render_row (topPercent xs)) xs) \<and>
    ((getSortPreference ls = ''newest'') =
       (ls ''scoreSort'' = None \<or> ls ''scoreSort'' = Some [] \<or> ls ''scoreSort'' = Some ''newest''))"
proof -
  have g: "getSortPreference (localStorage p) = pref"
    using assms(1,2) by (simp add: getSortPreference_def)
  have "sortScores pref xs = xs"
    using assms(3) by (rule sortScores_other)
  with displayScores_rows [OF assms(4)] g
  have "\<exists>p'. displayScores p = Inr p' \<and> tbody p' = map (render_row (topPercent xs)) xs"
    by (elim exE conjE) simp
  moreover have "(getSortPreference ls = ''newest'') =
       (ls ''scoreSort'' = None \<or> ls ''scoreSort'' = Some [] \<or> ls ''scoreSort'' = Some ''newest'')"
    by (auto simp: getSortPreference_def split: option.splits)
  ultimately show ?thesis
    using g by blast
qed

theorem unknown_preference_keeps_order_witness:
  "\<exists>p'. displayScores
      (blank\<lparr>localStorage := [''scoreSort'' \<mapsto> ''alphabetical'', ''scores'' \<mapsto> scenario_text]\<rparr>) = Inr p' \<and>
     map row_name (tbody p') = [''A'', ''B'', ''C'']"
proof -
  let ?p = "blank\<lparr>localStorage := [''scoreSort'' \<mapsto> ''alphabetical'', ''scores'' \<mapsto> scenario_text]\<rparr>"
  have h: "persisted (localStorage ?p) = Some scenario"
    by (rule persisted_scenario) simp
  have a: "localStorage ?p ''scoreSort'' = Some ''alphabetical''"
    by simp
  have b: "''alphabetical'' \<noteq> []"
    by simp
  have c: "''alphabetical'' \<notin> {''newest'', ''oldest'', ''highest'', ''lowest''}"
    by simp
  from unknown_preference_keeps_order [OF a b c h, where ls = Map.empty] obtain p'
    where "displayScores ?p = Inr p'" "tbody p' = map (render_row (topPercent scenario)) scenario"
    by (elim exE conjE)
  then show ?thesis
    by (intro exI [of _ p']) (simp add: scenario_def render_row_def)
qed

text \<open>
  C9. When \<^verbatim>\<open>clearScores\<close> runs and the user confirms, the entry of the scores is
  removed: a following load returns the empty sequence, the table is empty, and the
  stored preference, like every other entry, is as before.
\<close>

theorem clearScores_removes_scores:
  "\<exists>p'. clearScores True p = Inr p' \<and>
     localStorage p' = (localStorage p)(''scores'' := None) \<and>
     getScoresFromStorage (localStorage p') = Inr (JArr []) \<and>
     persisted (localStorage p') = Some [] \<and>
     localStorage p' ''scoreSort'' = localStorage p ''scoreSort'' \<and>
     getSortPreference (localStorage p') = getSortPreference (localStorage p) \<and>
     tbody p' = []"
proof -
  let ?q = "p\<lparr>localStorage := (localStorage p)(''scores'' := None)\<rparr>"
  have load: "getScoresFromStorage (localStorage ?q) = Inr (JArr [])"
    by (simp add: getScoresFromStorage_def)
  then have h: "persisted (localStorage ?q) = Some []"
    by (simp add: persisted_def)
  have "sortScores pref [] = []" for pref
    by (simp add: sortScores_def Array_sort_def)
  with displayScores_rows [OF h] obtain p'
    where "displayScores ?q = Inr p'" "localStorage p' = localStorage ?q" "tbody p' = []"
    by (elim exE conjE) simp
  with load h show ?thesis
    by (intro exI [of _ p']) (simp add: clearScores_def getSortPreference_def)
qed

theorem clearScores_removes_scores_witness:
  "\<exists>p'. clearScores True
      (blank\<lparr>localStorage := [''scoreSort'' \<mapsto> ''highest'', ''scores'' \<mapsto> scenario_text]\<rparr>) = Inr p' \<and>
     localStorage p' = [''scoreSort'' \<mapsto> ''highest'']"
proof -
  let ?p = "blank\<lparr>localStorage := [''scoreSort'' \<mapsto> ''highest'', ''scores'' \<mapsto> scenario_text]\<rparr>"
  from clearScores_removes_scores [of ?p] obtain p'
    where "clearScores True ?p = Inr p'" "localStorage p' = (localStorage ?p)(''scores'' := None)"
    by (elim exE conjE)
  then show ?thesis
    by (intro exI [of _ p']) simp
qed

text \<open>
  C7. Saving a sequence of score records with \<^verbatim>\<open>setScoresInStorage\<close> and loading it
  with \<^verbatim>\<open>getScoresFromStorage\<close> returns the sequence that was saved, for all records
  whose numbers are integers of at most \<open>2 ^ 53\<close>.
\<close>

theorem save_load_roundtrip:
  assumes "\<forall>r \<in> set xs. representable r"
  shows "getScoresFromStorage (setScoresInStorage ls (scores_json xs)) = Inr (scores_json xs) \<and>
    persisted (setScoresInStorage ls (scores_json xs)) = Some xs"
  using assms by (simp add: load_after_save json_ok_scores persisted_after_save)

theorem save_load_roundtrip_witness:
  "persisted (setScoresInStorage Map.empty (scores_json scenario)) = Some scenario"
proof -
  have "\<forall>r \<in> set scenario. representable r"
    by (simp add: scenario_def representable_def)
  from save_load_roundtrip [OF this] show ?thesis
    by simp
qed

text \<open>
  C4. When some displayed question has no selected answer, or the player name is empty
  after trimming, \<^verbatim>\<open>handleFormSubmit\<close> returns before grading: the stored text, and so
  the persisted sequence, is unchanged, no row is added, no result is shown, and the
  user gets one alert.
\<close>

theorem handleFormSubmit_rejects:
  assumes "(\<exists>b \<in> set (blocks p). \<forall>r \<in> set (radios b). \<not> checked r) \<or> trim (usernameInput p) = []"
  shows "\<exists>p'. handleFormSubmit now p = Inr p' \<and> localStorage p' = localStorage p \<and>
    persisted (localStorage p') = persisted (localStorage p) \<and> tbody p' = tbody p \<and>
    topScoreBox p' = topScoreBox p \<and> resultSummary p' = resultSummary p \<and>
    resultSummary_hidden p' = resultSummary_hidden p \<and>
    submit_disabled p' = submit_disabled p \<and>
    newPlayerButton_hidden p' = newPlayerButton_hidden p \<and>
    map radios (blocks p') = map radios (blocks p) \<and>
    length (alerts p') = Suc (length (alerts p))"
proof (cases "firstUnanswered (blocks p) = None")
  case False
  then show ?thesis
    by (simp add: handleFormSubmit_unanswered radios_mark_invalid)
next
  case True
  with assms have "trim (usernameInput p) = []"
    by (simp add: firstUnanswered_Some [symmetric])
  with True show ?thesis
    by (simp add: handleFormSubmit_unnamed radios_mark_invalid)
qed

theorem handleFormSubmit_rejects_witness:
  "(\<exists>p'. handleFormSubmit 5 (quiz\<lparr>usernameInput := ''  ''\<rparr>) = Inr p' \<and>
      localStorage p' = Map.empty \<and> tbody p' = [] \<and> length (alerts p') = 1) \<and>
   (\<exists>p'. handleFormSubmit 5
        (quiz\<lparr>blocks := [\<lparr>invalid = False, radios = [answer False True, answer False False]\<rparr>]\<rparr>) = Inr p' \<and>
      localStorage p' = Map.empty \<and> tbody p' = [] \<and> length (alerts p') = 1)"
proof
  let ?p = "quiz\<lparr>usernameInput := ''  ''\<rparr>"
  have "trim (usernameInput ?p) = []"
    by (simp add: trim_def is_space_def)
  then have "(\<exists>b \<in> set (blocks ?p). \<forall>r \<in> set (radios b). \<not> checked r) \<or> trim (usernameInput ?p) = []"
    by (rule disjI2)
  from handleFormSubmit_rejects [OF this, of 5] obtain p'
    where "handleFormSubmit 5 ?p = Inr p'" "localStorage p' = localStorage ?p"
      "tbody p' = tbody ?p" "length (alerts p') = Suc (length (alerts ?p))"
    by (elim exE conjE)
  then show "\<exists>p'. handleFormSubmit 5 ?p = Inr p' \<and>
      localStorage p' = Map.empty \<and> tbody p' = [] \<and> length (alerts p') = 1"
    by (intro exI [of _ p']) (simp add: quiz_def blank_def)
next
  let ?p = "quiz\<lparr>blocks := [\<lparr>invalid = False, radios = [answer False True, answer False False]\<rparr>]\<rparr>"
  have "\<exists>b \<in> set (blocks ?p). \<forall>r \<in> set (radios b). \<not> checked r"
    by (simp add: answer_def)
  then have "(\<exists>b \<in> set (blocks ?p). \<forall>r \<in> set (radios b). \<not> checked r) \<or> trim (usernameInput ?p) = []"
    by (rule disjI1)
  from handleFormSubmit_rejects [OF this, of 5] obtain p'
    where "handleFormSubmit 5 ?p = Inr p'" "localStorage p' = localStorage ?p"
      "tbody p' = tbody ?p" "length (alerts p') = Suc (length (alerts ?p))"
    by (elim exE conjE)
  then show "\<exists>p'. handleFormSubmit 5 ?p = Inr p' \<and>
      localStorage p' = Map.empty \<and> tbody p' = [] \<and> length (alerts p') = 1"
    by (intro exI [of _ p']) (simp add: quiz_def blank_def)
qed

text \<open>
  C5. A submission that passes both checks saves one record, appended to the stored
  array: its \<open>total\<close> is the number of question blocks, its \<open>correct\<close> the number of
  checked radios marked correct, and \<open>correct \<le> total\<close> holds when no question
  group has two checked radios (both counts are natural numbers). Where the stored
  value is a sequence of score records, the handler returns and the persisted sequence
  is the old one followed by that record.
\<close>

theorem submitted_score_bounded:
  assumes "\<forall>b \<in> set (blocks p). length (filter checked (radios b)) \<le> 1"
    and "firstUnanswered (blocks p) = None" and "trim (usernameInput p) \<noteq> []"
  shows "total (graded now p) = length (blocks p) \<and>
    correct (graded now p) = correctSelections p \<and>
    correct (graded now p) \<le> total (graded now p) \<and>
    (handleFormSubmit now p = Inr p' \<longrightarrow>
       (\<exists>vs. getScoresFromStorage (localStorage p) = Inr (JArr vs) \<and>
          localStorage p' =
            setScoresInStorage (localStorage p) (JArr (vs @ [score_json (graded now p)])))) \<and>
    (persisted (localStorage p) = Some xs \<and> length (blocks p) \<le> 2 ^ 53 \<and> now \<le> 2 ^ 53 \<longrightarrow>
       (\<exists>q. handleFormSubmit now p = Inr q \<and>
          persisted (localStorage q) = Some (xs @ [graded now p])))"
proof -
  have le: "correctSelections p \<le> length (blocks p)"
    unfolding correctSelections_def using assms(1) by (rule count_correct_le)
  have saved: "\<exists>vs. getScoresFromStorage (localStorage p) = Inr (JArr vs) \<and>
      localStorage p' =
        setScoresInStorage (localStorage p) (JArr (vs @ [score_json (graded now p)]))"
    if h: "handleFormSubmit now p = Inr p'"
  proof -
    from handleFormSubmit_saved [OF assms(2,3) h]
    have s: "saveScoreToStorage (localStorage p) (trim (usernameInput p)) (correctSelections p)
        (totalQuestions p) now = Inr (localStorage p')" .
    then obtain vs where vs: "getScoresFromStorage (localStorage p) = Inr (JArr vs)"
      by (auto simp: saveScoreToStorage_def split: sum.splits json.splits)
    with s have "localStorage p' =
        setScoresInStorage (localStorage p) (JArr (vs @ [score_json (graded now p)]))"
      by (simp add: saveScoreToStorage_def graded_def)
    with vs show ?thesis
      by blast
  qed
  have returns: "\<exists>q. handleFormSubmit now p = Inr q \<and>
      persisted (localStorage q) = Some (xs @ [graded now p])"
    if "persisted (localStorage p) = Some xs \<and> length (blocks p) \<le> 2 ^ 53 \<and> now \<le> 2 ^ 53"
  proof -
    from that le have "representable (graded now p)"
      by (simp add: representable_def graded_def totalQuestions_def)
    with that show ?thesis
      by (intro handleFormSubmit_accepts [OF assms(2,3)]) simp_all
  qed
  from le saved returns show ?thesis
    by (simp add: graded_def totalQuestions_def)
qed

theorem submitted_score_bounded_witness:
  "\<exists>q. handleFormSubmit 1730000000000 quiz = Inr q \<and>
     persisted (localStorage q) =
       Some [\<lparr>name = ''Ann'', correct = 1, total = 2, ts = 1730000000000\<rparr>] \<and>
     correct (graded 1730000000000 quiz) \<le> total (graded 1730000000000 quiz)"
proof -
  have b: "persisted (localStorage quiz) = Some [] \<and> length (blocks quiz) \<le> 2 ^ 53 \<and>
      (1730000000000 :: nat) \<le> 2 ^ 53"
    by (simp add: quiz_facts) (simp add: quiz_def)
  note t = submitted_score_bounded [OF quiz_facts(5,1,2), of 1730000000000 quiz "[]"]
  from t have le: "correct (graded 1730000000000 quiz) \<le> total (graded 1730000000000 quiz)"
    by (elim conjE)
  from t [THEN conjunct2, THEN conjunct2, THEN conjunct2, THEN conjunct2, THEN mp, OF b]
  obtain q where "handleFormSubmit 1730000000000 quiz = Inr q"
    "persisted (localStorage q) = Some ([] @ [graded 1730000000000 quiz])"
    by (elim exE conjE)
  with le show ?thesis
    by (intro exI [of _ q]) (simp add: quiz_facts)
qed

text \<open>
  C3. A stored text that is JSON and is not an array is returned as parsed, where the
  specification, and the comments of lines 310 to 323 and 338, promise an empty array:
  for \<^verbatim>\<open>{"name":"A"}\<close> \<^verbatim>\<open>getScoresFromStorage\<close> returns the object and for
  \<^verbatim>\<open>null\<close> the value \<^verbatim>\<open>null\<close>. Its callers \<^verbatim>\<open>displayScores\<close> and
  \<^verbatim>\<open>saveScoreToStorage\<close> then raise a TypeError.
\<close>

theorem getScoresFromStorage_not_records:
  \<open>getScoresFromStorage [''scores'' \<mapsto> ''{"name":"A"}''] = Inr (JObj [(''name'', JStr ''A'')]) \<and>
   displayScores (blank\<lparr>localStorage := [''scores'' \<mapsto> ''{"name":"A"}'']\<rparr>) = Inl TypeError \<and>
   saveScoreToStorage [''scores'' \<mapsto> ''{"name":"A"}''] ''Ann'' 1 2 5 = Inl TypeError \<and>
   getScoresFromStorage [''scores'' \<mapsto> ''null''] = Inr JNull \<and>
   displayScores (blank\<lparr>localStorage := [''scores'' \<mapsto> ''null'']\<rparr>) = Inl TypeError\<close>
  by (simp add: getScoresFromStorage_def displayScores_def saveScoreToStorage_def parse_simps)

text \<open>
  C2. For every non-empty persisted sequence of score records, the percentage in the
  top-score box is the maximum over all records of the percentage that the code computes
  (\<^verbatim>\<open>Math.round((correct / total) * 100)\<close> on doubles, 0 when \<open>total\<close> is 0), the
  count in the box is the number of records with that percentage, exactly those rows are
  marked, and both values are the same for every sort preference. Where no record has
  an exact percentage half way between two integers (and \<open>correct \<le> total \<le> 2 ^ 32\<close>),
  they are the maximum and the count of the rounded exact percentages.
\<close>

theorem top_score_is_global:
  assumes "persisted (localStorage p) = Some xs" and "xs \<noteq> []"
  shows "\<exists>p' m n ys. displayScores p = Inr p' \<and> m = Max (percent ` set xs) \<and>
    n = length (filter (\<lambda>r. percent r = m) xs) \<and>
    topScoreBox p' = TopSummary (Some m) n (if n = 1 then ''player'' else ''players'') \<and>
    tbody p' = map (render_row (Some m)) ys \<and> mset ys = mset xs \<and>
    map row_top (tbody p') = map (\<lambda>r. percent r = m) ys \<and>
    topPercent (sortScores pref xs) = Some m \<and>
    topCount (topPercent (sortScores pref xs)) (sortScores pref xs) = n \<and>
    ((\<forall>r \<in> set xs. in_range r \<and> \<not> half_way r) \<longrightarrow>
       m = Max (spec_percent ` set xs) \<and> n = length (filter (\<lambda>r. spec_percent r = m) xs))"
proof -
  let ?m = "Max (percent ` set xs)"
  let ?n = "length (filter (\<lambda>r. percent r = ?m) xs)"
  let ?ys = "sortScores (getSortPreference (localStorage p)) xs"
  have ne: "length ?ys \<noteq> 0"
    using assms(2) by (simp add: sortScores_Nil)
  have d: "displayScores p =
      Inr (p\<lparr>tbody := map (render_row (Some ?m)) ?ys,
             topScoreBox := TopSummary (Some ?m) ?n (if ?n = 1 then ''player'' else ''players''),
             topScoreBox_hidden := False\<rparr>)"
    using ne by (simp add: displayScores_persisted [OF assms(1)] top_sorted [OF assms(2)] Let_def)
  have r: "map row_top (map (render_row (Some ?m)) ?ys) = map (\<lambda>r. percent r = ?m) ?ys"
    by (simp add: render_row_def is_top_def)
  have t: "topPercent (sortScores pref xs) = Some ?m"
    "topCount (topPercent (sortScores pref xs)) (sortScores pref xs) = ?n"
    by (simp_all add: top_sorted [OF assms(2)])
  have i: "percent ` set xs = spec_percent ` set xs"
    if "\<forall>r \<in> set xs. in_range r \<and> \<not> half_way r"
    using that by (intro image_cong) (simp_all add: percent_spec)
  have f: "filter (\<lambda>r. percent r = k) xs = filter (\<lambda>r. spec_percent r = k) xs"
    if "\<forall>r \<in> set xs. in_range r \<and> \<not> half_way r" for k
    using that by (intro filter_cong) (simp_all add: percent_spec)
  show ?thesis
    apply (rule exI [of _ "p\<lparr>tbody := map (render_row (Some ?m)) ?ys,
             topScoreBox := TopSummary (Some ?m) ?n (if ?n = 1 then ''player'' else ''players''),
             topScoreBox_hidden := False\<rparr>"])
    apply (rule exI [of _ ?m], rule exI [of _ ?n], rule exI [of _ ?ys])
    apply (intro conjI impI)
    apply (simp_all add: d t top_sorted [OF assms(2)] mset_sortScores render_row_def is_top_def)
    apply (simp_all add: i f)
    done
qed

theorem top_score_is_global_witness:
  "\<exists>p'. displayScores
      (blank\<lparr>localStorage := [''scoreSort'' \<mapsto> ''lowest'', ''scores'' \<mapsto> scenario_text]\<rparr>) = Inr p' \<and>
     topScoreBox p' = TopSummary (Some 90) 1 ''player''"
proof -
  let ?p = "blank\<lparr>localStorage := [''scoreSort'' \<mapsto> ''lowest'', ''scores'' \<mapsto> scenario_text]\<rparr>"
  have h: "persisted (localStorage ?p) = Some scenario"
    by (rule persisted_scenario) simp
  have ne: "scenario \<noteq> []"
    by (simp add: scenario_def)
  have m: "Max (percent ` set scenario) = 90"
    by (simp add: scenario_def percent_scenario)
  have n: "length (filter (\<lambda>r. percent r = 90) scenario) = 1"
    by (simp add: scenario_def percent_scenario)
  from top_score_is_global [OF h ne, of "''lowest''"] obtain p' k
    where "displayScores ?p = Inr p'"
      "k = length (filter (\<lambda>r. percent r = Max (percent ` set scenario)) scenario)"
      "topScoreBox p' = TopSummary (Some (Max (percent ` set scenario))) k
         (if k = 1 then ''player'' else ''players'')"
    by (elim exE conjE) simp
  then show ?thesis
    by (intro exI [of _ p']) (simp add: m n)
qed

theorem top_score_not_rounded_exact:
  \<open>displayScores (blank\<lparr>localStorage := [''scores'' \<mapsto> ''[{"name":"A","correct":46,"total":80,"ts":1}]'']\<rparr>) =
     Inr (blank\<lparr>localStorage := [''scores'' \<mapsto> ''[{"name":"A","correct":46,"total":80,"ts":1}]''],
                tbody := [\<lparr>row_top = True, row_name = ''A'', row_score = ''46/80''\<rparr>],
                topScoreBox := TopSummary (Some 57) 1 ''player'', topScoreBox_hidden := False\<rparr>) \<and>
   spec_percent \<lparr>name = ''A'', correct = 46, total = 80, ts = 1\<rparr> = 58\<close>
proof -
  let ?p = \<open>blank\<lparr>localStorage := [''scores'' \<mapsto> ''[{"name":"A","correct":46,"total":80,"ts":1}]'']\<rparr>\<close>
  have h: "persisted (localStorage ?p) = Some [\<lparr>name = ''A'', correct = 46, total = 80, ts = 1\<rparr>]"
    by (simp add: persisted_def getScoresFromStorage_def parse_simps as_score_def as_count_def)
  have tp: "topPercent [\<lparr>name = ''A'', correct = 46, total = 80, ts = t\<rparr>] = Some 57" for t
    by (simp add: topPercent_def percent_46_80)
  have "spec_percent \<lparr>name = ''A'', correct = 46, total = 80, ts = 1\<rparr> = 58"
    by (simp add: spec_percent_def round_def floor_eq_iff)
  then show ?thesis
    by (simp add: displayScores_persisted [OF h] sortScores_single tp topCount_filter Let_def
        percent_46_80 render_row_def is_top_def show_nat.simps digit_char_def)
qed

text \<open>
  C6. The percentage of a record is \<^verbatim>\<open>Math.round((correct / total) * 100)\<close> on
  doubles. It is 0 when \<open>total\<close> is 0, where nothing is divided; it is the rounded
  exact percentage \<open>round (100 * correct / total)\<close> for \<open>correct \<le> total \<le> 2 ^ 32\<close>
  unless the exact percentage lies half way between two integers; a first record saved
  with \<open>correct = 0\<close> and \<open>total = 0\<close> is shown as a top score of 0 percent; and
  such a record saved after any others is shown with the score \<open>0/0\<close>, marked as a top
  score exactly when the top percentage is its own, 0.
\<close>

theorem percent_of_record:
  "(total r = 0 \<longrightarrow> percent r = 0) \<and>
   (in_range r \<and> \<not> half_way r \<longrightarrow> percent r = spec_percent r) \<and>
   (localStorage p ''scores'' = None \<and> now \<le> 2 ^ 53 \<longrightarrow>
      (\<exists>ls p'. saveScoreToStorage (localStorage p) nm 0 0 now = Inr ls \<and>
         displayScores (p\<lparr>localStorage := ls\<rparr>) = Inr p' \<and>
         tbody p' = [\<lparr>row_top = True, row_name = nm, row_score = ''0/0''\<rparr>] \<and>
         topScoreBox p' = TopSummary (Some 0) 1 ''player'')) \<and>
   (persisted (localStorage p) = Some xs \<and> now \<le> 2 ^ 53 \<longrightarrow>
      (\<exists>ls p' ys. saveScoreToStorage (localStorage p) nm 0 0 now = Inr ls \<and>
         displayScores (p\<lparr>localStorage := ls\<rparr>) = Inr p' \<and>
         mset ys = mset (xs @ [\<lparr>name = nm, correct = 0, total = 0, ts = now\<rparr>]) \<and>
         tbody p' = map (render_row (topPercent ys)) ys \<and>
         percent \<lparr>name = nm, correct = 0, total = 0, ts = now\<rparr> = 0 \<and>
         render_row (topPercent ys) \<lparr>name = nm, correct = 0, total = 0, ts = now\<rparr> =
           \<lparr>row_top = (topPercent ys = Some 0), row_name = nm, row_score = ''0/0''\<rparr>))"
proof (intro conjI impI)
  show "percent r = 0" if "total r = 0"
    using that by (rule percent_0_0)
  show "percent r = spec_percent r" if "in_range r \<and> \<not> half_way r"
    using that by (intro percent_spec) simp_all
  show "\<exists>ls p'. saveScoreToStorage (localStorage p) nm 0 0 now = Inr ls \<and>
         displayScores (p\<lparr>localStorage := ls\<rparr>) = Inr p' \<and>
         tbody p' = [\<lparr>row_top = True, row_name = nm, row_score = ''0/0''\<rparr>] \<and>
         topScoreBox p' = TopSummary (Some 0) 1 ''player''"
    if "localStorage p ''scores'' = None \<and> now \<le> 2 ^ 53"
  proof -
    let ?r = "\<lparr>name = nm, correct = 0, total = 0, ts = now\<rparr>"
    have "representable ?r"
      using that by (simp add: representable_def)
    from first_record_shown [of p ?r, OF _ this] that show ?thesis
      by (simp add: percent_0_0 render_row_def is_top_def show_nat.simps digit_char_def)
  qed
  show "\<exists>ls p' ys. saveScoreToStorage (localStorage p) nm 0 0 now = Inr ls \<and>
         displayScores (p\<lparr>localStorage := ls\<rparr>) = Inr p' \<and>
         mset ys = mset (xs @ [\<lparr>name = nm, correct = 0, total = 0, ts = now\<rparr>]) \<and>
         tbody p' = map (render_row (topPercent ys)) ys \<and>
         percent \<lparr>name = nm, correct = 0, total = 0, ts = now\<rparr> = 0 \<and>
         render_row (topPercent ys) \<lparr>name = nm, correct = 0, total = 0, ts = now\<rparr> =
           \<lparr>row_top = (topPercent ys = Some 0), row_name = nm, row_score = ''0/0''\<rparr>"
    if h: "persisted (localStorage p) = Some xs \<and> now \<le> 2 ^ 53"
  proof -
    let ?r = "\<lparr>name = nm, correct = 0, total = 0, ts = now\<rparr>"
    have "representable ?r"
      using h by (simp add: representable_def)
    from persisted_after_append [of "localStorage p" xs ?r, OF _ this] h obtain ls
      where ls: "saveScoreToStorage (localStorage p) nm 0 0 now = Inr ls"
        "persisted ls = Some (xs @ [?r])"
      by auto
    let ?q = "p\<lparr>localStorage := ls\<rparr>"
    let ?ys = "sortScores (getSortPreference (localStorage ?q)) (xs @ [?r])"
    have "persisted (localStorage ?q) = Some (xs @ [?r])"
      using ls(2) by simp
    from displayScores_rows [OF this] obtain p'
      where p': "displayScores ?q = Inr p'" "tbody p' = map (render_row (topPercent ?ys)) ?ys"
      by (elim exE conjE)
    have z: "percent ?r = 0"
      by (simp add: percent_0_0)
    have m: "mset ?ys = mset (xs @ [?r])"
      by (rule mset_sortScores)
    have "render_row (topPercent ?ys) ?r =
        \<lparr>row_top = (topPercent ?ys = Some 0), row_name = nm, row_score = ''0/0''\<rparr>"
      by (cases "topPercent ?ys")
        (simp_all add: render_row_def is_top_def z show_nat.simps digit_char_def)
    with ls(1) p' z m show ?thesis
      by (intro exI [of _ ls] exI [of _ p'] exI [of _ ?ys] conjI)
  qed
qed

theorem percent_of_record_witness:
  "percent \<lparr>name = ''A'', correct = 0, total = 0, ts = 1\<rparr> = 0 \<and>
   percent \<lparr>name = ''A'', correct = 7, total = 10, ts = 1\<rparr> = 70 \<and>
   (\<exists>ls p'. saveScoreToStorage Map.empty ''Zed'' 0 0 5 = Inr ls \<and>
      displayScores (blank\<lparr>localStorage := ls\<rparr>) = Inr p' \<and>
      topScoreBox p' = TopSummary (Some 0) 1 ''player'')"
proof -
  have b: "localStorage blank ''scores'' = None \<and> (5 :: nat) \<le> 2 ^ 53"
    by (simp add: blank_def)
  have l: "localStorage blank = Map.empty"
    by (simp add: blank_def)
  from percent_of_record [of "\<lparr>name = ''A'', correct = 0, total = 0, ts = 1\<rparr>" blank 5 "''Zed''"]
  have one: "percent \<lparr>name = ''A'', correct = 0, total = 0, ts = 1\<rparr> = 0"
    by simp
  from percent_of_record [of "\<lparr>name = ''A'', correct = 7, total = 10, ts = 1\<rparr>" blank 5 "''Zed''"]
  have two: "percent \<lparr>name = ''A'', correct = 7, total = 10, ts = 1\<rparr> = 70"
    by (simp add: in_range_def half_way_def spec_percent_def)
  have "\<exists>ls p'. saveScoreToStorage (localStorage blank) ''Zed'' 0 0 5 = Inr ls \<and>
         displayScores (blank\<lparr>localStorage := ls\<rparr>) = Inr p' \<and>
         tbody p' = [\<lparr>row_top = True, row_name = ''Zed'', row_score = ''0/0''\<rparr>] \<and>
         topScoreBox p' = TopSummary (Some 0) 1 ''player''"
    by (rule percent_of_record [where p = blank and now = 5 and nm = "''Zed''",
          THEN conjunct2, THEN conjunct2, THEN conjunct1, THEN mp, OF b])
  then obtain ls p' where "saveScoreToStorage Map.empty ''Zed'' 0 0 5 = Inr ls"
    "displayScores (blank\<lparr>localStorage := ls\<rparr>) = Inr p'"
    "topScoreBox p' = TopSummary (Some 0) 1 ''player''"
    unfolding l by (elim exE conjE)
  with one two show ?thesis
    by (intro conjI exI [of _ ls] exI [of _ p'])
qed

theorem percent_not_rounded_exact:
  "percent \<lparr>name = ''A'', correct = 23, total = 40, ts = 1\<rparr> = 57 \<and>
   spec_percent \<lparr>name = ''A'', correct = 23, total = 40, ts = 1\<rparr> = 58 \<and>
   round (100 * 23 / 40 :: rat) = 58"
proof -
  have "round (100 * 23 / 40 :: rat) = 58"
    by (simp add: round_def floor_eq_iff)
  then show ?thesis
    by (simp add: percent_23_40 spec_percent_def)
qed

end
